theory Spec2Isabelle
  imports Complex_Main "HOL-Library.Sublist"
begin

section \<open>Errors and results\<close>

text \<open>
  The kinds of failure of the retrieval subsystem, under the names of the error taxonomy:
  \<^item> \<open>ConfigError\<close>: the \<^verbatim>\<open>ValueError("OPENAI_API_KEY environment variable not set.")\<close>
    that each knowledge-base function raises first;
  \<^item> \<open>ProviderError\<close>: an exception out of \<^verbatim>\<open>embed_documents\<close>;
  \<^item> \<open>IndexError\<close>: an exception out of the vector store (missing collection,
    duplicate id);
  \<^item> \<open>GenerationError\<close>: an exception out of the chat-completion call;
  \<^item> \<open>FileError\<close>: any exception of \<^verbatim>\<open>open\<close> or \<^verbatim>\<open>json.load\<close> other than
    \<^verbatim>\<open>json.JSONDecodeError\<close> (\<^verbatim>\<open>OSError\<close>, \<^verbatim>\<open>UnicodeDecodeError\<close>, ...), which the
    loader does not catch; the taxonomy has no name for it.
  None of them is caught in the source, so each one ends the call; a function that has
  effects returns its result together with the state it leaves behind, also when it raises.
\<close>

datatype error = ConfigError | ProviderError | IndexError | GenerationError | FileError

section \<open>Python text helpers\<close>

text \<open>Python's \<^verbatim>\<open>sep.join(xs)\<close>.\<close>

fun str_join :: "string \<Rightarrow> string list \<Rightarrow> string" where
  "str_join sep [] = []"
| "str_join sep [x] = x"
| "str_join sep (x # y # ys) = x @ sep @ str_join sep (y # ys)"

text \<open>
  \<^verbatim>\<open>str(n)\<close> for an integer: decimal digits, most significant first, no leading zero,
  a minus sign for a negative number.
\<close>

definition digit_char :: "nat \<Rightarrow> char" where
  "digit_char d = char_of (of_char (CHR ''0'') + d)"

fun str_nat :: "nat \<Rightarrow> string" where
  "str_nat n = (if n < 10 then [digit_char n] else str_nat (n div 10) @ [digit_char (n mod 10)])"

definition str_int :: "int \<Rightarrow> string" where
  "str_int i = (if i < 0 then CHR ''-'' # str_nat (nat (- i)) else str_nat (nat i))"

definition hex_char :: "nat \<Rightarrow> char" where
  "hex_char d = (if d < 10 then digit_char d else char_of (of_char (CHR ''a'') + (d - 10)))"

section \<open>Structured records and their serialization\<close>

text \<open>
  A value read by \<^verbatim>\<open>json.load\<close>. A Python \<^verbatim>\<open>dict\<close> keeps its keys in insertion
  order, and \<^verbatim>\<open>json.dumps\<close> writes them in that order, so an object is the list of its
  (key, value) pairs in that order (a dict has no key twice). A character stands for a
  code point below 256. A float is carried as the text \<^verbatim>\<open>repr\<close> gives for it; the
  model does no floating-point arithmetic.
\<close>

datatype json =
    JNull
  | JBool bool
  | JInt int
  | JFloat string
  | JString string
  | JArray "json list"
  | JObject "(string \<times> json) list"

text \<open>
  \<^verbatim>\<open>json.dumps(data, indent=2)\<close>, after \<^verbatim>\<open>json.encoder\<close>: \<^verbatim>\<open>ensure_ascii\<close> is on, so a
  string is written with \<^verbatim>\<open>py_encode_basestring_ascii\<close>; the separators are \<^verbatim>\<open>','\<close> and
  \<^verbatim>\<open>': '\<close>; every item of a non-empty container starts on a line of its own, indented by
  two spaces for each level. No \<^verbatim>\<open>sort_keys\<close> is passed.
\<close>

definition escape_char :: "char \<Rightarrow> string" where
  "escape_char c =
     (if c = CHR 0x5C then [CHR 0x5C, CHR 0x5C]
      else if c = CHR 0x22 then [CHR 0x5C, CHR 0x22]
      else if c = CHR 0x08 then [CHR 0x5C, CHR ''b'']
      else if c = CHR 0x0C then [CHR 0x5C, CHR ''f'']
      else if c = CHR 0x0A then [CHR 0x5C, CHR ''n'']
      else if c = CHR 0x0D then [CHR 0x5C, CHR ''r'']
      else if c = CHR 0x09 then [CHR 0x5C, CHR ''t'']
      else if (of_char c :: nat) < 0x20 \<or> 0x7E < (of_char c :: nat)
        then [CHR 0x5C, CHR ''u'', CHR ''0'', CHR ''0'',
              hex_char (of_char c div 16), hex_char (of_char c mod 16)]
      else [c])"

definition encode_basestring_ascii :: "string \<Rightarrow> string" where
  "encode_basestring_ascii s = CHR 0x22 # concat (map escape_char s) @ [CHR 0x22]"

definition newline_indent :: "nat \<Rightarrow> string" where
  "newline_indent level = CHR 0x0A # replicate (2 * level) CHR '' ''"

definition encode_float :: "string \<Rightarrow> string" where
  "encode_float r =
     (if r = ''nan'' then ''NaN''
      else if r = ''inf'' then ''Infinity''
      else if r = ''-inf'' then ''-Infinity''
      else r)"

primrec iterencode :: "json \<Rightarrow> nat \<Rightarrow> string" where
  "iterencode JNull level = ''null''"
| "iterencode (JBool b) level = (if b then ''true'' else ''false'')"
| "iterencode (JInt i) level = str_int i"
| "iterencode (JFloat r) level = encode_float r"
| "iterencode (JString s) level = encode_basestring_ascii s"
| "iterencode (JArray lst) level =
     (if lst = [] then ''[]''
      else ''['' @ newline_indent (level + 1) @
           str_join ('','' @ newline_indent (level + 1))
             (map (\<lambda>v. iterencode v (level + 1)) lst) @
           newline_indent level @ '']'')"
| "iterencode (JObject dct) level =
     (if dct = [] then ''{}''
      else ''{'' @ newline_indent (level + 1) @
           str_join ('','' @ newline_indent (level + 1))
             (map (\<lambda>(k, s). encode_basestring_ascii k @ '': '' @ s)
                (map (map_prod id (\<lambda>v. iterencode v (level + 1))) dct)) @
           newline_indent level @ ''}'')"

definition json_dumps :: "json \<Rightarrow> string" where
  "json_dumps obj = iterencode obj 0"

text \<open>
  \<^verbatim>\<open>repr\<close> of a string: single quotes, unless the string holds a single quote and no
  double quote; the quote in use and the backslash are escaped, tab, newline and return have
  their letters, and any other unprintable character is written \<^verbatim>\<open>\xNN\<close>.
\<close>

definition py_printable :: "char \<Rightarrow> bool" where
  "py_printable c =
     (let n = (of_char c :: nat)
      in (0x20 \<le> n \<and> n < 0x7F) \<or> (0xA0 < n \<and> n \<noteq> 0xAD))"

definition repr_char :: "char \<Rightarrow> char \<Rightarrow> string" where
  "repr_char quote c =
     (if c = quote \<or> c = CHR 0x5C then [CHR 0x5C, c]
      else if c = CHR 0x09 then [CHR 0x5C, CHR ''t'']
      else if c = CHR 0x0A then [CHR 0x5C, CHR ''n'']
      else if c = CHR 0x0D then [CHR 0x5C, CHR ''r'']
      else if \<not> py_printable c
        then [CHR 0x5C, CHR ''x'', hex_char (of_char c div 16), hex_char (of_char c mod 16)]
      else [c])"

definition repr_str :: "string \<Rightarrow> string" where
  "repr_str s =
     (let quote = (if CHR 0x27 \<in> set s \<and> CHR 0x22 \<notin> set s then CHR 0x22 else CHR 0x27)
      in quote # concat (map (repr_char quote) s) @ [quote])"

primrec py_repr :: "json \<Rightarrow> string" where
  "py_repr JNull = ''None''"
| "py_repr (JBool b) = (if b then ''True'' else ''False'')"
| "py_repr (JInt i) = str_int i"
| "py_repr (JFloat r) = r"
| "py_repr (JString s) = repr_str s"
| "py_repr (JArray lst) = ''['' @ str_join '', '' (map py_repr lst) @ '']''"
| "py_repr (JObject dct) =
     ''{'' @ str_join '', ''
              (map (\<lambda>(k, s). repr_str k @ '': '' @ s) (map (map_prod id py_repr) dct)) @ ''}''"

text \<open>
  What an f-string writes for \<^verbatim>\<open>d.get(key)\<close>: \<^verbatim>\<open>str\<close> of the value, which is the
  string itself for a string and \<^verbatim>\<open>repr\<close> for everything else; a missing key gives
  \<^verbatim>\<open>None\<close>, written \<^verbatim>\<open>None\<close>.
\<close>

fun py_format :: "json option \<Rightarrow> string" where
  "py_format None = ''None''"
| "py_format (Some (JString s)) = s"
| "py_format (Some v) = py_repr v"

section \<open>Documents, index entries and the persisted state\<close>

text \<open>A LangChain \<^verbatim>\<open>Document\<close>: the text and the metadata dictionary.\<close>

record document =
  page_content :: string
  metadata :: "(string \<times> string) list"

text \<open>One row of the collection, as \<^verbatim>\<open>collection.add\<close> stores it.\<close>

record 'v entry =
  entry_id :: string
  entry_embedding :: 'v
  entry_document :: string
  entry_metadata :: "(string \<times> string) list"

text \<open>
  What opening a directory entry and \<^verbatim>\<open>json.load\<close> make of it: a value
  (\<open>Parsed\<close>), \<^verbatim>\<open>json.JSONDecodeError\<close> (\<open>Malformed\<close>), or any other exception
  (\<open>Unreadable\<close>: the entry is a directory, cannot be opened, is not UTF-8, ...).
\<close>

datatype file_content = Parsed json | Malformed | Unreadable

text \<open>
  Everything the knowledge-base functions read or change outside their arguments:
  \<^item> the environment variable \<^verbatim>\<open>OPENAI_API_KEY\<close> (\<open>None\<close> when unset);
  \<^item> the directory \<^verbatim>\<open>FINAL_JSON_DIR\<close>: \<open>None\<close> when it does not exist, else its
    files as (name, content) in the order \<^verbatim>\<open>glob\<close> lists them;
  \<^item> the collection \<^verbatim>\<open>COLLECTION_NAME\<close> persisted under \<^verbatim>\<open>VECTOR_DB_DIR\<close>: \<open>None\<close>
    when it has never been created, else its rows in the order they were added;
  \<^item> the number of calls made to \<^verbatim>\<open>embed_documents\<close> so far.
\<close>

record 'v world =
  OPENAI_API_KEY :: "string option"
  FINAL_JSON_DIR :: "(string \<times> file_content) list option"
  collection :: "'v entry list option"
  embed_calls :: nat

definition EMBEDDING_BATCH_SIZE :: nat where
  "EMBEDDING_BATCH_SIZE = 100"

text \<open>\<^verbatim>\<open>if not api_key\<close> holds for an unset variable and for the empty string.\<close>

definition api_key_set :: "'v world \<Rightarrow> bool" where
  "api_key_set w = (case OPENAI_API_KEY w of None \<Rightarrow> False | Some k \<Rightarrow> k \<noteq> [])"

section \<open>The embedding provider\<close>

text \<open>
  Modelled from the spec: the Embedding Provider (\<^verbatim>\<open>OpenAIEmbeddings.embed_documents\<close>, a
  library outside the repository). It is a parameter: given how many calls came before and
  the texts of this call, it answers one vector for each text, or fails. A call fails as a
  whole with \<open>ProviderError\<close> when the provider fails or answers with the wrong number
  of vectors; there are no partial results.
\<close>

type_synonym 'v embedder = "nat \<Rightarrow> string list \<Rightarrow> 'v list option"

definition embed_documents ::
  "'v embedder \<Rightarrow> string list \<Rightarrow> 'v world \<Rightarrow> (error + 'v list) \<times> 'v world" where
  "embed_documents provider texts w =
     (let w' = w\<lparr>embed_calls := Suc (embed_calls w)\<rparr>
      in case provider (embed_calls w) texts of
           None \<Rightarrow> (Inl ProviderError, w')
         | Some vs \<Rightarrow> if length vs = length texts then (Inr vs, w') else (Inl ProviderError, w'))"

section \<open>The vector index\<close>

text \<open>
  Modelled from the spec: the Vector Index (the ChromaDB client, a library outside the
  repository), over the one collection of the deployment.
  \<^item> \<open>get_or_create_collection\<close> creates the collection on first use and reuses it after;
  \<^item> \<open>get_collection\<close> fails with \<open>IndexError\<close> when the collection does not exist;
  \<^item> \<open>collection_count\<close> is the current number of rows;
  \<^item> \<open>collection_add\<close> appends the rows made of the four parallel lists; an id that
    occurs twice in the call, or that a stored row already has, is an \<open>IndexError\<close> and
    nothing is written.
\<close>

definition get_or_create_collection :: "'v world \<Rightarrow> 'v world" where
  "get_or_create_collection w =
     (case collection w of None \<Rightarrow> w\<lparr>collection := Some []\<rparr> | Some es \<Rightarrow> w)"

definition get_collection :: "'v world \<Rightarrow> error + 'v entry list" where
  "get_collection w = (case collection w of None \<Rightarrow> Inl IndexError | Some es \<Rightarrow> Inr es)"

definition entries :: "'v world \<Rightarrow> 'v entry list" where
  "entries w = (case collection w of None \<Rightarrow> [] | Some es \<Rightarrow> es)"

definition collection_count :: "'v world \<Rightarrow> nat" where
  "collection_count w = length (entries w)"

definition make_entries ::
  "string list \<Rightarrow> 'v list \<Rightarrow> string list \<Rightarrow> (string \<times> string) list list \<Rightarrow> 'v entry list" where
  "make_entries ids embeddings documents metadatas =
     map (\<lambda>(i, e, d, m).
            \<lparr>entry_id = i, entry_embedding = e, entry_document = d, entry_metadata = m\<rparr>)
         (zip ids (zip embeddings (zip documents metadatas)))"

definition collection_add ::
  "string list \<Rightarrow> 'v list \<Rightarrow> string list \<Rightarrow> (string \<times> string) list list \<Rightarrow> 'v world
     \<Rightarrow> (error + unit) \<times> 'v world" where
  "collection_add ids embeddings documents metadatas w =
     (case collection w of
        None \<Rightarrow> (Inl IndexError, w)
      | Some es \<Rightarrow>
          if length embeddings \<noteq> length ids \<or> length documents \<noteq> length ids
               \<or> length metadatas \<noteq> length ids
            then (Inl IndexError, w)
          else if \<not> distinct ids \<or> (\<exists>i \<in> set ids. i \<in> set (map entry_id es))
            then (Inl IndexError, w)
          else (Inr (), w\<lparr>collection := Some (es @ make_entries ids embeddings documents metadatas)\<rparr>))"

text \<open>
  Modelled from the spec: the nearest-neighbour search \<^verbatim>\<open>collection.query\<close>. It is a
  parameter: from the stored rows, the query text and \<^verbatim>\<open>n_results\<close> it gives the value of
  \<^verbatim>\<open>results.get("documents")\<close> (\<open>None\<close>, or one ranked list of texts for each query
  text), or the error it raises.
\<close>

type_synonym 'v searcher = "'v entry list \<Rightarrow> string \<Rightarrow> int \<Rightarrow> error + string list list option"

section \<open>Knowledge base management\<close>

text \<open>The functions of \<^verbatim>\<open>src/rag/knowledge_base.py\<close>.\<close>

text \<open>
  \<^verbatim>\<open>load_documents_from_json_dir(source_dir)\<close>: one document for each \<^verbatim>\<open>*.json\<close> file that
  decodes, labelled with the file's name. Only \<^verbatim>\<open>json.JSONDecodeError\<close> is caught (line
  52): a file that raises it is skipped, and any other exception ends the loader and
  goes to its caller.
\<close>

fun load_json_files :: "(string \<times> file_content) list \<Rightarrow> error + document list" where
  "load_json_files [] = Inr []"
| "load_json_files ((name, Parsed data) # json_files) =
     (case load_json_files json_files of
        Inl e \<Rightarrow> Inl e
      | Inr all_docs \<Rightarrow>
          Inr (\<lparr>page_content = json_dumps data, metadata = [(''source'', name)]\<rparr> # all_docs))"
| "load_json_files ((name, Malformed) # json_files) = load_json_files json_files"
| "load_json_files ((name, Unreadable) # json_files) = Inl FileError"

definition load_documents_from_json_dir ::
  "(string \<times> file_content) list option \<Rightarrow> error + document list" where
  "load_documents_from_json_dir source_dir =
     (case source_dir of
        None \<Rightarrow> Inr []
      | Some files \<Rightarrow> load_json_files (filter (\<lambda>(name, c). suffix ''.json'' name) files))"

text \<open>The id \<^verbatim>\<open>f"doc_{n}"\<close>.\<close>

definition doc_id :: "nat \<Rightarrow> string" where
  "doc_id n = ''doc_'' @ str_nat n"

text \<open>
  The steps both ingest paths run on a list of documents (lines 97 to 108 for one batch of
  \<open>create_knowledge_base\<close>, lines 148 to 160 of \<open>update_knowledge_base\<close>): embed the
  texts, read the count, number the ids from it, add the rows.
\<close>

definition embed_and_add ::
  "'v embedder \<Rightarrow> document list \<Rightarrow> 'v world \<Rightarrow> (error + unit) \<times> 'v world" where
  "embed_and_add provider batch_docs w =
     (let page_contents = map page_content batch_docs
      in case embed_documents provider page_contents w of
           (Inl e, w1) \<Rightarrow> (Inl e, w1)
         | (Inr batch_embeddings, w1) \<Rightarrow>
             let current_count = collection_count w1;
                 ids = map (\<lambda>j. doc_id (current_count + j)) [0..<length batch_docs]
             in collection_add ids batch_embeddings page_contents (map metadata batch_docs) w1)"

text \<open>
  The loop \<^verbatim>\<open>for i in range(0, len(documents), EMBEDDING_BATCH_SIZE)\<close>, from index \<open>i\<close> on.
  An exception in a batch ends the loop and keeps what earlier batches wrote.
\<close>

function batch_loop ::
  "'v embedder \<Rightarrow> document list \<Rightarrow> nat \<Rightarrow> 'v world \<Rightarrow> (error + unit) \<times> 'v world" where
  "batch_loop provider documents i w =
     (if i < length documents
      then case embed_and_add provider (take EMBEDDING_BATCH_SIZE (drop i documents)) w of
             (Inl e, w') \<Rightarrow> (Inl e, w')
           | (Inr u, w') \<Rightarrow> batch_loop provider documents (i + EMBEDDING_BATCH_SIZE) w'
      else (Inr (), w))"
  by pat_completeness auto
termination
  by (relation "measure (\<lambda>(provider, documents, i, w). length documents - i)")
     (auto simp: EMBEDDING_BATCH_SIZE_def)

definition create_knowledge_base ::
  "'v embedder \<Rightarrow> document list option \<Rightarrow> 'v world \<Rightarrow> (error + unit) \<times> 'v world" where
  "create_knowledge_base provider documents_arg w =
     (if \<not> api_key_set w then (Inl ConfigError, w)
      else case (case documents_arg of
                   None \<Rightarrow> load_documents_from_json_dir (FINAL_JSON_DIR w)
                 | Some ds \<Rightarrow> Inr ds) of
             Inl e \<Rightarrow> (Inl e, w)
           | Inr documents \<Rightarrow>
               if documents = [] then (Inr (), w)
               else batch_loop provider documents 0 (get_or_create_collection w))"

text \<open>The list \<^verbatim>\<open>docs_to_ingest\<close> that \<open>update_knowledge_base\<close> builds from the records.\<close>

definition docs_to_ingest :: "(string \<times> json) list list \<Rightarrow> document list" where
  "docs_to_ingest final_json_list =
     map (\<lambda>final_json.
            \<lparr>page_content = json_dumps (JObject final_json),
             metadata = [(''source'', py_format (map_of final_json ''documentId'') @ ''.json'')]\<rparr>)
         final_json_list"

definition update_knowledge_base ::
  "'v embedder \<Rightarrow> (string \<times> json) list list \<Rightarrow> 'v world \<Rightarrow> (error + unit) \<times> 'v world" where
  "update_knowledge_base provider final_json_list w =
     (if final_json_list = [] then (Inr (), w)
      else if \<not> api_key_set w then (Inl ConfigError, w)
      else let w1 = get_or_create_collection w;
               docs = docs_to_ingest final_json_list
           in if docs = [] then (Inr (), w1)
              else embed_and_add provider docs w1)"

definition query_knowledge_base ::
  "'v searcher \<Rightarrow> string \<Rightarrow> int \<Rightarrow> 'v world \<Rightarrow> (error + string list) \<times> 'v world" where
  "query_knowledge_base search query_text n_results w =
     (if \<not> api_key_set w then (Inl ConfigError, w)
      else case get_collection w of
             Inl e \<Rightarrow> (Inl e, w)
           | Inr es \<Rightarrow>
               (case search es query_text n_results of
                  Inl e \<Rightarrow> (Inl e, w)
                | Inr results \<Rightarrow>
                    (case results of
                       Some (first # others) \<Rightarrow> (Inr first, w)
                     | _ \<Rightarrow> (Inr [], w))))"

section \<open>Sequences of ingest calls\<close>

text \<open>
  One writer running ingest calls one after the other: each call starts in the state the
  call before left, and the first exception ends the run.
\<close>

datatype ingest_call = Create "document list option" | Update "(string \<times> json) list list"

fun ingest :: "'v embedder \<Rightarrow> ingest_call \<Rightarrow> 'v world \<Rightarrow> (error + unit) \<times> 'v world" where
  "ingest provider (Create documents_arg) w = create_knowledge_base provider documents_arg w"
| "ingest provider (Update final_json_list) w = update_knowledge_base provider final_json_list w"

fun run_ingests :: "'v embedder \<Rightarrow> ingest_call list \<Rightarrow> 'v world \<Rightarrow> (error + unit) \<times> 'v world" where
  "run_ingests provider [] w = (Inr (), w)"
| "run_ingests provider (c # cs) w =
     (case ingest provider c w of
        (Inl e, w') \<Rightarrow> (Inl e, w')
      | (Inr u, w') \<Rightarrow> run_ingests provider cs w')"

text \<open>
  The number of records a call is given to add (none when the loader raises, as the call
  then raises too).
\<close>

fun ingest_size :: "'v world \<Rightarrow> ingest_call \<Rightarrow> nat" where
  "ingest_size w (Create None) =
     (case load_documents_from_json_dir (FINAL_JSON_DIR w) of
        Inl e \<Rightarrow> 0
      | Inr ds \<Rightarrow> length ds)"
| "ingest_size w (Create (Some ds)) = length ds"
| "ingest_size w (Update final_json_list) = length final_json_list"

text \<open>
  The ids of a collection filled only by these functions: row \<open>n\<close> has id \<^verbatim>\<open>doc_n\<close>.
\<close>

definition wf_ids :: "'v entry list \<Rightarrow> bool" where
  "wf_ids es = (map entry_id es = map doc_id [0..<length es])"

text \<open>Batch \<open>j\<close> (from 0) of a document list, and the number of batches (line 93).\<close>

definition batch_at :: "'a list \<Rightarrow> nat \<Rightarrow> 'a list" where
  "batch_at xs j = take EMBEDDING_BATCH_SIZE (drop (j * EMBEDDING_BATCH_SIZE) xs)"

definition total_batches :: "'a list \<Rightarrow> nat" where
  "total_batches xs = (length xs + EMBEDDING_BATCH_SIZE - 1) div EMBEDDING_BATCH_SIZE"

section \<open>Answer generation\<close>

text \<open>The function \<^verbatim>\<open>generate_answer\<close> of \<^verbatim>\<open>app.py\<close>.\<close>

text \<open>
  One request to \<^verbatim>\<open>client.chat.completions.create\<close>: the model name, the messages as
  (role, content) pairs in order, and the sampling temperature.
\<close>

record chat_request =
  model :: string
  messages :: "(string \<times> string) list"
  temperature :: real

text \<open>
  The chat model is external: it is a parameter that maps a request to the text of
  \<^verbatim>\<open>response.choices[0].message.content\<close>, or to the error it raises.
\<close>

type_synonym llm = "chat_request \<Rightarrow> error + string"

definition no_documents_message :: string where
  "no_documents_message = ''I couldn't find any relevant documents to answer that.''"

definition context_separator :: string where
  "context_separator = ''\<newline>\<newline>---\<newline>\<newline>''"

definition system_prompt :: string where
  "system_prompt =
     ''You are an expert Q&A system. Answer the user's question based ONLY on '' @
     ''the provided context documents. If the answer isn't in the context, say so.''"

definition user_prompt :: "string \<Rightarrow> string \<Rightarrow> string" where
  "user_prompt context_str query_text =
     ''CONTEXT DOCUMENTS:\<newline>'' @ context_str @
     ''\<newline>\<newline>USER'S QUESTION:\<newline>'' @ query_text @
     ''\<newline>\<newline>ANSWER:''"

definition answer_request :: "string \<Rightarrow> string list \<Rightarrow> chat_request" where
  "answer_request query_text retrieved_docs =
     \<lparr> model = ''gpt-4o'',
       messages = [(''system'', system_prompt),
                   (''user'', user_prompt (str_join context_separator retrieved_docs) query_text)],
       temperature = 0 \<rparr>"

text \<open>
  \<^verbatim>\<open>generate_answer(query_text, retrieved_docs)\<close>. The second component of the result is
  the list of requests sent to the model during the call, in order.
\<close>

definition generate_answer ::
  "llm \<Rightarrow> string \<Rightarrow> string list \<Rightarrow> (error + string) \<times> chat_request list" where
  "generate_answer client query_text retrieved_docs =
     (if retrieved_docs = [] then (Inr no_documents_message, [])
      else let request = answer_request query_text retrieved_docs
           in (client request, [request]))"

section \<open>Notions used to state the properties\<close>

text \<open>
  The documents a call of \<open>create_knowledge_base\<close> works on (lines 68 and 69), or the
  exception of the loader.
\<close>

definition documents_of :: "'v world \<Rightarrow> document list option \<Rightarrow> error + document list" where
  "documents_of w documents_arg =
     (case documents_arg of
        None \<Rightarrow> load_documents_from_json_dir (FINAL_JSON_DIR w)
      | Some ds \<Rightarrow> Inr ds)"

text \<open>
  The rows one batch adds when the collection holds \<open>c\<close> rows and the provider answered
  \<open>vs\<close>: row \<open>j\<close> pairs id \<^verbatim>\<open>doc_(c+j)\<close> with vector \<open>j\<close> and document \<open>j\<close>.
\<close>

definition batch_entries :: "nat \<Rightarrow> 'v list \<Rightarrow> document list \<Rightarrow> 'v entry list" where
  "batch_entries c vs batch =
     make_entries (map doc_id [c..<c + length batch]) vs (map page_content batch) (map metadata batch)"

section \<open>Example inputs\<close>

text \<open>
  The two records of the end-to-end scenario, a record without \<^verbatim>\<open>documentId\<close>, a document,
  a provider that embeds each text as its length, a provider that fails on call \<open>k\<close>
  (counted from 0), a search that finds nothing, and three deployments: a fresh one, one
  without credential, one whose record directory holds no \<^verbatim>\<open>*.json\<close> file that decodes,
  and one whose only \<^verbatim>\<open>*.json\<close> entry cannot be read.
\<close>

definition record_A :: "(string \<times> json) list" where
  "record_A = [(''documentId'', JString ''A''), (''totalUsage'', JInt 100)]"

definition record_B :: "(string \<times> json) list" where
  "record_B = [(''documentId'', JString ''B''), (''totalUsage'', JInt 200)]"

definition record_no_id :: "(string \<times> json) list" where
  "record_no_id = [(''totalUsage'', JInt 300)]"

definition mock_embedder :: "nat embedder" where
  "mock_embedder n texts = Some (map length texts)"

definition failing_embedder :: "nat \<Rightarrow> nat embedder" where
  "failing_embedder k n texts = (if n = k then None else Some (map length texts))"

definition fresh_world :: "nat world" where
  "fresh_world =
     \<lparr>OPENAI_API_KEY = Some ''sk-test'', FINAL_JSON_DIR = None, collection = None, embed_calls = 0\<rparr>"

definition note_doc :: document where
  "note_doc = \<lparr>page_content = ''note'', metadata = [(''source'', ''note.json'')]\<rparr>"

definition no_key_world :: "nat world" where
  "no_key_world =
     \<lparr>OPENAI_API_KEY = None, FINAL_JSON_DIR = None, collection = None, embed_calls = 0\<rparr>"

definition unparseable_world :: "nat world" where
  "unparseable_world =
     \<lparr>OPENAI_API_KEY = Some ''sk-test'',
      FINAL_JSON_DIR = Some [(''broken.json'', Malformed), (''notes.txt'', Parsed JNull)],
      collection = None, embed_calls = 0\<rparr>"

definition unreadable_world :: "nat world" where
  "unreadable_world =
     \<lparr>OPENAI_API_KEY = Some ''sk-test'',
      FINAL_JSON_DIR = Some [(''scan.json'', Unreadable)],
      collection = None, embed_calls = 0\<rparr>"

definition empty_searcher :: "nat searcher" where
  "empty_searcher es query_text n_results = Inr (Some [[]])"

section \<open>Joining\<close>

lemma str_join_Cons: "str_join sep (d # ds) = d @ concat (map (\<lambda>x. sep @ x) ds)"
  by (induction ds arbitrary: d) simp_all

section \<open>Ids\<close>

declare str_nat.simps [simp del]

lemma str_nat_nonempty: "str_nat n \<noteq> []"
  by (subst str_nat.simps) simp

lemma of_char_digit_char: "d < 10 \<Longrightarrow> (of_char (digit_char d) :: nat) = 48 + d"
  unfolding digit_char_def by (simp add: of_char_of take_bit_eq_mod)

lemma digit_char_inj:
  assumes "a < 10" "b < 10" "digit_char a = digit_char b"
  shows "a = b"
proof -
  have "48 + a = (of_char (digit_char a) :: nat)"
    using assms(1) by (simp only: of_char_digit_char)
  also have "\<dots> = of_char (digit_char b)"
    by (simp only: assms(3))
  also have "\<dots> = 48 + b"
    using assms(2) by (simp only: of_char_digit_char)
  finally show ?thesis by (simp only: add_left_cancel)
qed

lemma str_nat_small: "n < 10 \<Longrightarrow> str_nat n = [digit_char n]"
  by (subst str_nat.simps) simp

lemma str_nat_large: "\<not> n < 10 \<Longrightarrow> str_nat n = str_nat (n div 10) @ [digit_char (n mod 10)]"
  by (subst str_nat.simps) simp

lemma str_nat_inj: "str_nat m = str_nat n \<Longrightarrow> m = n"
proof (induction m arbitrary: n rule: str_nat.induct)
  case (1 m)
  show ?case
  proof (cases "m < 10")
    case m: True
    then have sm: "str_nat m = [digit_char m]" by (rule str_nat_small)
    show ?thesis
    proof (cases "n < 10")
      case True
      then have "str_nat n = [digit_char n]" by (rule str_nat_small)
      with sm "1.prems" have "digit_char m = digit_char n" by simp
      with m True show ?thesis by (rule digit_char_inj)
    next
      case False
      then have "str_nat n = str_nat (n div 10) @ [digit_char (n mod 10)]"
        by (rule str_nat_large)
      with sm "1.prems" have "str_nat (n div 10) = []" by simp
      then show ?thesis using str_nat_nonempty by blast
    qed
  next
    case m: False
    then have sm: "str_nat m = str_nat (m div 10) @ [digit_char (m mod 10)]"
      by (rule str_nat_large)
    show ?thesis
    proof (cases "n < 10")
      case True
      then have "str_nat n = [digit_char n]" by (rule str_nat_small)
      with sm "1.prems" have "str_nat (m div 10) = []" by simp
      then show ?thesis using str_nat_nonempty by blast
    next
      case False
      then have "str_nat n = str_nat (n div 10) @ [digit_char (n mod 10)]"
        by (rule str_nat_large)
      with sm "1.prems"
      have eq: "str_nat (m div 10) = str_nat (n div 10)"
        and d: "digit_char (m mod 10) = digit_char (n mod 10)"
        by simp_all
      from "1.IH" [OF m eq] have q: "m div 10 = n div 10" .
      have "m mod 10 < 10" "n mod 10 < 10" by simp_all
      then have r: "m mod 10 = n mod 10" using d by (rule digit_char_inj)
      have "m = m div 10 * 10 + m mod 10" by simp
      also have "\<dots> = n div 10 * 10 + n mod 10" by (simp only: q r)
      also have "\<dots> = n" by simp
      finally show ?thesis .
    qed
  qed
qed

lemma doc_id_eq_iff: "doc_id m = doc_id n \<longleftrightarrow> m = n"
  by (auto simp: doc_id_def dest: str_nat_inj)

lemma inj_doc_id: "inj_on doc_id A"
  by (simp add: inj_on_def doc_id_eq_iff)

lemma distinct_doc_ids: "distinct (map doc_id [a..<b])"
  by (simp add: distinct_map inj_doc_id)

lemma new_ids_eq: "map (\<lambda>j. doc_id (c + j)) [0..<n] = map doc_id [c..<c + n]"
  by (induction n) auto

lemma wf_ids_distinct: "wf_ids es \<Longrightarrow> distinct (map entry_id es)"
  by (simp add: wf_ids_def distinct_doc_ids)

lemma wf_ids_fresh:
  assumes "wf_ids es" "i \<in> set (map doc_id [length es..<length es + n])"
  shows "i \<notin> set (map entry_id es)"
proof -
  from assms(2) obtain k where k: "i = doc_id k" "length es \<le> k" by auto
  have "set (map entry_id es) = doc_id ` {0..<length es}"
    using assms(1) by (simp add: wf_ids_def)
  with k show ?thesis by (auto simp: doc_id_eq_iff)
qed

section \<open>One batch\<close>

lemma length_make_entries:
  "length es = length ids \<Longrightarrow> length ds = length ids \<Longrightarrow> length ms = length ids \<Longrightarrow>
   length (make_entries ids es ds ms) = length ids"
  by (simp add: make_entries_def)

lemma nth_make_entries:
  "length es = length ids \<Longrightarrow> length ds = length ids \<Longrightarrow> length ms = length ids \<Longrightarrow>
   i < length ids \<Longrightarrow>
   make_entries ids es ds ms ! i =
     \<lparr>entry_id = ids ! i, entry_embedding = es ! i, entry_document = ds ! i, entry_metadata = ms ! i\<rparr>"
  by (simp add: make_entries_def)

lemma length_batch_entries:
  "length vs = length batch \<Longrightarrow> length (batch_entries c vs batch) = length batch"
  by (simp add: batch_entries_def length_make_entries)

lemma nth_batch_entries:
  "length vs = length batch \<Longrightarrow> i < length batch \<Longrightarrow>
   batch_entries c vs batch ! i =
     \<lparr>entry_id = doc_id (c + i), entry_embedding = vs ! i,
      entry_document = page_content (batch ! i), entry_metadata = metadata (batch ! i)\<rparr>"
  by (simp add: batch_entries_def nth_make_entries)

lemma batch_entries_ids:
  "length vs = length batch \<Longrightarrow>
   map entry_id (batch_entries c vs batch) = map doc_id [c..<c + length batch]"
  by (rule nth_equalityI) (simp_all add: length_batch_entries nth_batch_entries)

lemma batch_entries_documents:
  "length vs = length batch \<Longrightarrow>
   map entry_document (batch_entries c vs batch) = map page_content batch"
  by (rule nth_equalityI) (simp_all add: length_batch_entries nth_batch_entries)

lemma batch_entries_metadata:
  "length vs = length batch \<Longrightarrow>
   map entry_metadata (batch_entries c vs batch) = map metadata batch"
  by (rule nth_equalityI) (simp_all add: length_batch_entries nth_batch_entries)

lemma batch_entries_embeddings:
  "length vs = length batch \<Longrightarrow>
   map entry_embedding (batch_entries c vs batch) = vs"
  by (rule nth_equalityI) (simp_all add: length_batch_entries nth_batch_entries)

lemma wf_ids_append:
  assumes "wf_ids es" "length vs = length batch"
  shows "wf_ids (es @ batch_entries (length es) vs batch)"
proof -
  have "[0..<length es + length batch] = [0..<length es] @ [length es..<length es + length batch]"
    by (rule upt_add_eq_append) simp
  with assms show ?thesis
    by (simp add: wf_ids_def batch_entries_ids length_batch_entries)
qed

lemma collection_add_fresh:
  assumes "collection w = Some es" "wf_ids es" "length vs = length batch"
  shows "collection_add (map doc_id [length es..<length es + length batch]) vs
           (map page_content batch) (map metadata batch) w =
         (Inr (), w\<lparr>collection := Some (es @ batch_entries (length es) vs batch)\<rparr>)"
proof -
  have "distinct (map doc_id [length es..<length es + length batch])"
    by (rule distinct_doc_ids)
  moreover have "\<not> (\<exists>i \<in> set (map doc_id [length es..<length es + length batch]).
                      i \<in> set (map entry_id es))"
    using wf_ids_fresh [OF assms(2)] by blast
  ultimately show ?thesis
    using assms(1,3) by (simp add: collection_add_def batch_entries_def)
qed

lemma embed_and_add_ok:
  assumes "collection w = Some es" "wf_ids es"
    and "provider (embed_calls w) (map page_content batch) = Some vs"
    and "length vs = length batch"
  shows "embed_and_add provider batch w =
         (Inr (), w\<lparr>embed_calls := Suc (embed_calls w),
                    collection := Some (es @ batch_entries (length es) vs batch)\<rparr>)"
proof -
  let ?w1 = "w\<lparr>embed_calls := Suc (embed_calls w)\<rparr>"
  have e: "embed_documents provider (map page_content batch) w = (Inr vs, ?w1)"
    using assms(3,4) by (simp add: embed_documents_def)
  have c: "collection ?w1 = Some es" using assms(1) by simp
  have n: "collection_count ?w1 = length es"
    using assms(1) by (simp add: collection_count_def entries_def)
  show ?thesis
    by (simp add: embed_and_add_def Let_def e n new_ids_eq collection_add_fresh [OF c assms(2,4)])
qed

lemma embed_and_add_fail:
  assumes "provider (embed_calls w) (map page_content batch) = None"
  shows "embed_and_add provider batch w =
         (Inl ProviderError, w\<lparr>embed_calls := Suc (embed_calls w)\<rparr>)"
  using assms by (simp add: embed_and_add_def embed_documents_def)

lemma embed_and_add_returns:
  assumes "embed_and_add provider batch w = (Inr u, w')" "collection w = Some es"
  shows "\<exists>vs. provider (embed_calls w) (map page_content batch) = Some vs \<and>
              length vs = length batch \<and>
              w' = w\<lparr>embed_calls := Suc (embed_calls w),
                     collection := Some (es @ batch_entries (length es) vs batch)\<rparr>"
proof (cases "provider (embed_calls w) (map page_content batch)")
  case None
  with assms(1) show ?thesis by (simp add: embed_and_add_fail)
next
  case (Some vs)
  show ?thesis
  proof (cases "length vs = length batch")
    case False
    with Some assms(1) show ?thesis
      by (simp add: embed_and_add_def embed_documents_def)
  next
    case True
    let ?w1 = "w\<lparr>embed_calls := Suc (embed_calls w)\<rparr>"
    have e: "embed_documents provider (map page_content batch) w = (Inr vs, ?w1)"
      using Some True by (simp add: embed_documents_def)
    have n: "collection_count ?w1 = length es"
      using assms(2) by (simp add: collection_count_def entries_def)
    from assms(1) have
      "collection_add (map doc_id [length es..<length es + length batch]) vs
         (map page_content batch) (map metadata batch) ?w1 = (Inr u, w')"
      by (simp add: embed_and_add_def Let_def e n new_ids_eq)
    then have "w' = ?w1\<lparr>collection := Some (es @ batch_entries (length es) vs batch)\<rparr>"
      using assms(2)
      by (simp add: collection_add_def batch_entries_def split: if_splits)
    with Some True show ?thesis by simp
  qed
qed

section \<open>The batch loop\<close>

declare batch_loop.simps [simp del]

lemma batch_size_pos: "0 < EMBEDDING_BATCH_SIZE"
  by (simp add: EMBEDDING_BATCH_SIZE_def)

lemma batch_loop_done:
  "\<not> i < length docs \<Longrightarrow> batch_loop p docs i w = (Inr (), w)"
  by (subst batch_loop.simps) simp

lemma batch_loop_step:
  "i < length docs \<Longrightarrow>
   batch_loop p docs i w =
     (case embed_and_add p (take EMBEDDING_BATCH_SIZE (drop i docs)) w of
        (Inl e, w') \<Rightarrow> (Inl e, w')
      | (Inr u, w') \<Rightarrow> batch_loop p docs (i + EMBEDDING_BATCH_SIZE) w')"
  by (subst batch_loop.simps) simp

lemma batch_loop_returns:
  assumes "batch_loop p docs i w = (Inr u, w')" and "collection w = Some es"
  shows "\<exists>new.
           collection w' = Some (es @ new) \<and>
           length new = length docs - i \<and>
           map entry_id new = map doc_id [length es..<length es + (length docs - i)] \<and>
           map entry_document new = map page_content (drop i docs) \<and>
           map entry_metadata new = map metadata (drop i docs) \<and>
           OPENAI_API_KEY w' = OPENAI_API_KEY w \<and>
           FINAL_JSON_DIR w' = FINAL_JSON_DIR w \<and>
           (\<forall>j. i + j * EMBEDDING_BATCH_SIZE < length docs \<longrightarrow>
              (\<exists>vs. p (embed_calls w + j)
                       (map page_content
                          (take EMBEDDING_BATCH_SIZE (drop (i + j * EMBEDDING_BATCH_SIZE) docs)))
                     = Some vs \<and>
                    length vs =
                      length (take EMBEDDING_BATCH_SIZE (drop (i + j * EMBEDDING_BATCH_SIZE) docs)) \<and>
                    take EMBEDDING_BATCH_SIZE (drop (j * EMBEDDING_BATCH_SIZE) new) =
                      batch_entries (length es + j * EMBEDDING_BATCH_SIZE) vs
                        (take EMBEDDING_BATCH_SIZE (drop (i + j * EMBEDDING_BATCH_SIZE) docs))))"
  using assms
proof (induction "length docs - i" arbitrary: i w es rule: less_induct)
  case less
  let ?B = "EMBEDDING_BATCH_SIZE"
  have B: "0 < ?B" by (rule batch_size_pos)
  note coll = less.prems(2)
  show ?case
  proof (cases "i < length docs")
    case False
    then have "w' = w"
      using less.prems(1) by (simp add: batch_loop_done)
    with coll False show ?thesis
      by (intro exI [of _ "[]"]) simp
  next
    case True
    let ?batch = "take ?B (drop i docs)"
    obtain r w1 where s: "embed_and_add p ?batch w = (r, w1)"
      by (cases "embed_and_add p ?batch w") auto
    have step: "batch_loop p docs i w =
                (case (r, w1) of (Inl e, w') \<Rightarrow> (Inl e, w')
                 | (Inr u, w') \<Rightarrow> batch_loop p docs (i + ?B) w')"
      using batch_loop_step [OF True, of p w] s by simp
    obtain u1 where r: "r = Inr u1"
      and rest: "batch_loop p docs (i + ?B) w1 = (Inr u, w')"
      using less.prems(1) step by (cases r) auto
    from embed_and_add_returns [OF s [unfolded r] coll]
    obtain vs where vs: "p (embed_calls w) (map page_content ?batch) = Some vs"
      and lvs: "length vs = length ?batch"
      and w1: "w1 = w\<lparr>embed_calls := Suc (embed_calls w),
                       collection := Some (es @ batch_entries (length es) vs ?batch)\<rparr>"
      by blast
    let ?be = "batch_entries (length es) vs ?batch"
    have lbe: "length ?be = length ?batch"
      using lvs by (rule length_batch_entries)
    have lb: "length ?batch = min ?B (length docs - i)"
      by simp
    have c1: "collection w1 = Some (es @ ?be)"
      by (simp add: w1)
    have dec: "length docs - (i + ?B) < length docs - i"
      using True B by arith
    from less.hyps [OF dec rest c1]
    obtain new1 where
      n1: "collection w' = Some ((es @ ?be) @ new1)"
      and n2: "length new1 = length docs - (i + ?B)"
      and n3: "map entry_id new1 =
               map doc_id [length (es @ ?be)..<length (es @ ?be) + (length docs - (i + ?B))]"
      and n4: "map entry_document new1 = map page_content (drop (i + ?B) docs)"
      and n5: "map entry_metadata new1 = map metadata (drop (i + ?B) docs)"
      and n6: "OPENAI_API_KEY w' = OPENAI_API_KEY w1"
      and n7: "FINAL_JSON_DIR w' = FINAL_JSON_DIR w1"
      and n8: "\<And>j. i + ?B + j * ?B < length docs \<Longrightarrow>
                 \<exists>vs'. p (embed_calls w1 + j)
                         (map page_content (take ?B (drop (i + ?B + j * ?B) docs))) = Some vs' \<and>
                       length vs' = length (take ?B (drop (i + ?B + j * ?B) docs)) \<and>
                       take ?B (drop (j * ?B) new1) =
                         batch_entries (length (es @ ?be) + j * ?B) vs'
                           (take ?B (drop (i + ?B + j * ?B) docs))"
      by blast
    let ?new = "?be @ new1"
    have g1: "collection w' = Some (es @ ?new)"
      using n1 by simp
    have sum: "length ?batch + (length docs - (i + ?B)) = length docs - i"
      using True by (simp add: min_def)
    have g2: "length ?new = length docs - i"
      using n2 lbe sum by simp
    have split: "drop i docs = ?batch @ drop (i + ?B) docs"
      by (simp add: add.commute [of i ?B] flip: drop_drop)
    have "[length es..<length es + length ?batch + (length docs - (i + ?B))] =
          [length es..<length es + length ?batch] @
          [length es + length ?batch..<length es + length ?batch + (length docs - (i + ?B))]"
      by (rule upt_add_eq_append) simp
    with sum have
      "[length es..<length es + (length docs - i)] =
       [length es..<length es + length ?batch] @
       [length es + length ?batch..<length es + length ?batch + (length docs - (i + ?B))]"
      by (simp only: add.assoc)
    then have g3: "map entry_id ?new = map doc_id [length es..<length es + (length docs - i)]"
      using n3 lbe batch_entries_ids [OF lvs, of "length es"] by simp
    have g4: "map entry_document ?new = map page_content (drop i docs)"
      using n4 batch_entries_documents [OF lvs, of "length es"]
      by (subst split) simp
    have g5: "map entry_metadata ?new = map metadata (drop i docs)"
      using n5 batch_entries_metadata [OF lvs, of "length es"]
      by (subst split) simp
    have g6: "OPENAI_API_KEY w' = OPENAI_API_KEY w" "FINAL_JSON_DIR w' = FINAL_JSON_DIR w"
      using n6 n7 by (simp_all add: w1)
    have g8: "\<exists>vs'. p (embed_calls w + j) (map page_content (take ?B (drop (i + j * ?B) docs)))
                    = Some vs' \<and>
                  length vs' = length (take ?B (drop (i + j * ?B) docs)) \<and>
                  take ?B (drop (j * ?B) ?new) =
                    batch_entries (length es + j * ?B) vs' (take ?B (drop (i + j * ?B) docs))"
      if j: "i + j * ?B < length docs" for j
    proof (cases j)
      case 0
      have "take ?B ?new = ?be"
      proof (cases "?B \<le> length docs - i")
        case True
        then have "length ?be = ?B" using lbe lb by simp
        then show ?thesis by simp
      next
        case False
        then have "new1 = []" using n2 by simp
        then show ?thesis using lbe lb by simp
      qed
      with 0 vs lvs show ?thesis by simp
    next
      case (Suc j')
      with j have j': "i + ?B + j' * ?B < length docs" by (simp add: algebra_simps)
      then have "?B \<le> length docs - i" by simp
      then have full: "length ?be = ?B" using lbe lb by simp
      from n8 [OF j'] obtain vs' where
        a: "p (embed_calls w1 + j') (map page_content (take ?B (drop (i + ?B + j' * ?B) docs)))
            = Some vs'"
        and b: "length vs' = length (take ?B (drop (i + ?B + j' * ?B) docs))"
        and c: "take ?B (drop (j' * ?B) new1) =
                batch_entries (length (es @ ?be) + j' * ?B) vs'
                  (take ?B (drop (i + ?B + j' * ?B) docs))"
        by blast
      have e1: "embed_calls w1 + j' = embed_calls w + j"
        by (simp add: w1 Suc)
      have e2: "i + ?B + j' * ?B = i + j * ?B"
        by (simp add: Suc)
      have e3: "length (es @ ?be) + j' * ?B = length es + j * ?B"
        by (simp add: full Suc)
      have e4: "drop (j * ?B) ?new = drop (j' * ?B) new1"
        by (simp add: Suc full)
      from a b c show ?thesis
        unfolding e1 e2 e3 e4 [symmetric] by blast
    qed
    show ?thesis
      using g1 g2 g3 g4 g5 g6 g8 by blast
  qed
qed

lemma batch_loop_fails:
  assumes "collection w = Some es" and "wf_ids es"
    and "\<forall>j<k. \<exists>vs. p (embed_calls w + j)
                       (map page_content
                          (take EMBEDDING_BATCH_SIZE (drop (i + j * EMBEDDING_BATCH_SIZE) docs)))
                     = Some vs \<and>
                   length vs =
                     length (take EMBEDDING_BATCH_SIZE (drop (i + j * EMBEDDING_BATCH_SIZE) docs))"
    and "p (embed_calls w + k)
           (map page_content
              (take EMBEDDING_BATCH_SIZE (drop (i + k * EMBEDDING_BATCH_SIZE) docs))) = None"
    and "i + k * EMBEDDING_BATCH_SIZE < length docs"
  shows "\<exists>new w'.
           batch_loop p docs i w = (Inl ProviderError, w') \<and>
           collection w' = Some (es @ new) \<and>
           length new = k * EMBEDDING_BATCH_SIZE \<and>
           map entry_document new =
             map page_content (take (k * EMBEDDING_BATCH_SIZE) (drop i docs)) \<and>
           wf_ids (es @ new) \<and>
           embed_calls w' = embed_calls w + Suc k \<and>
           OPENAI_API_KEY w' = OPENAI_API_KEY w \<and>
           FINAL_JSON_DIR w' = FINAL_JSON_DIR w"
  using assms
proof (induction k arbitrary: i w es)
  case 0
  let ?B = "EMBEDDING_BATCH_SIZE"
  from "0.prems"(5) have i: "i < length docs" by simp
  from "0.prems"(4) have "p (embed_calls w) (map page_content (take ?B (drop i docs))) = None"
    by simp
  then have "embed_and_add p (take ?B (drop i docs)) w =
             (Inl ProviderError, w\<lparr>embed_calls := Suc (embed_calls w)\<rparr>)"
    by (rule embed_and_add_fail)
  then have "batch_loop p docs i w = (Inl ProviderError, w\<lparr>embed_calls := Suc (embed_calls w)\<rparr>)"
    using batch_loop_step [OF i, of p w] by simp
  with "0.prems"(1,2) show ?case
    by (intro exI [of _ "[]"] exI [of _ "w\<lparr>embed_calls := Suc (embed_calls w)\<rparr>"]) simp
next
  case (Suc k)
  let ?B = "EMBEDDING_BATCH_SIZE"
  let ?batch = "take ?B (drop i docs)"
  from Suc.prems(5) have far: "i + ?B + k * ?B < length docs"
    by (simp add: algebra_simps)
  then have i: "i < length docs" and full: "length ?batch = ?B"
    by simp_all
  from Suc.prems(3) [rule_format, of 0] obtain vs
    where vs: "p (embed_calls w) (map page_content ?batch) = Some vs"
      and lvs: "length vs = length ?batch"
    by auto
  let ?be = "batch_entries (length es) vs ?batch"
  let ?w1 = "w\<lparr>embed_calls := Suc (embed_calls w), collection := Some (es @ ?be)\<rparr>"
  have lbe: "length ?be = ?B"
    using length_batch_entries [OF lvs] full by simp
  have "embed_and_add p ?batch w = (Inr (), ?w1)"
    using Suc.prems(1,2) vs lvs by (rule embed_and_add_ok)
  then have step: "batch_loop p docs i w = batch_loop p docs (i + ?B) ?w1"
    using batch_loop_step [OF i, of p w] by simp
  have c1: "collection ?w1 = Some (es @ ?be)" by simp
  have wf1: "wf_ids (es @ ?be)"
    using Suc.prems(2) lvs by (rule wf_ids_append)
  have ok1: "\<forall>j<k. \<exists>vs. p (embed_calls ?w1 + j)
                          (map page_content (take ?B (drop (i + ?B + j * ?B) docs))) = Some vs \<and>
                       length vs = length (take ?B (drop (i + ?B + j * ?B) docs))"
  proof (intro allI impI)
    fix j assume "j < k"
    then have "Suc j < Suc k" by simp
    from Suc.prems(3) [rule_format, OF this]
    show "\<exists>vs. p (embed_calls ?w1 + j)
                  (map page_content (take ?B (drop (i + ?B + j * ?B) docs))) = Some vs \<and>
               length vs = length (take ?B (drop (i + ?B + j * ?B) docs))"
      by (simp add: add.assoc)
  qed
  have fail1: "p (embed_calls ?w1 + k)
                 (map page_content (take ?B (drop (i + ?B + k * ?B) docs))) = None"
    using Suc.prems(4) by (simp add: add.assoc)
  from Suc.IH [OF c1 wf1 ok1 fail1 far]
  obtain new1 w' where
    r: "batch_loop p docs (i + ?B) ?w1 = (Inl ProviderError, w')"
    and n1: "collection w' = Some ((es @ ?be) @ new1)"
    and n2: "length new1 = k * ?B"
    and n3: "map entry_document new1 = map page_content (take (k * ?B) (drop (i + ?B) docs))"
    and n4: "wf_ids ((es @ ?be) @ new1)"
    and n5: "embed_calls w' = embed_calls ?w1 + Suc k"
    and n6: "OPENAI_API_KEY w' = OPENAI_API_KEY ?w1"
    and n7: "FINAL_JSON_DIR w' = FINAL_JSON_DIR ?w1"
    by blast
  have "take (?B + k * ?B) (drop i docs) = ?batch @ take (k * ?B) (drop (i + ?B) docs)"
    by (simp add: take_add add.commute [of i ?B] flip: drop_drop)
  then have docs: "map entry_document (?be @ new1) =
                   map page_content (take (Suc k * ?B) (drop i docs))"
    using n3 batch_entries_documents [OF lvs, of "length es"] by simp
  show ?case
    using step r n1 n2 lbe docs n4 n5 n6 n7
    by (intro exI [of _ "?be @ new1"] exI [of _ w']) simp
qed

section \<open>Batches of a list\<close>

lemma get_or_create_collection_simps:
  "collection (get_or_create_collection w) = Some (entries w)"
  "embed_calls (get_or_create_collection w) = embed_calls w"
  "OPENAI_API_KEY (get_or_create_collection w) = OPENAI_API_KEY w"
  "FINAL_JSON_DIR (get_or_create_collection w) = FINAL_JSON_DIR w"
  by (simp_all add: get_or_create_collection_def entries_def split: option.splits)

lemma entries_Some: "collection w = Some es \<Longrightarrow> entries w = es"
  by (simp add: entries_def)

lemma take_batches:
  "concat (map (batch_at xs) [0..<k]) = take (k * EMBEDDING_BATCH_SIZE) xs"
proof (induction k)
  case 0
  show ?case by simp
next
  case (Suc k)
  have "take (k * EMBEDDING_BATCH_SIZE + EMBEDDING_BATCH_SIZE) xs =
        take (k * EMBEDDING_BATCH_SIZE) xs @ batch_at xs k"
    by (simp add: take_add batch_at_def)
  with Suc show ?case by (simp add: add.commute)
qed

lemma total_batches_covers: "length xs \<le> total_batches xs * EMBEDDING_BATCH_SIZE"
  unfolding total_batches_def EMBEDDING_BATCH_SIZE_def by arith

lemma less_total_batches:
  "j < total_batches xs \<longleftrightarrow> j * EMBEDDING_BATCH_SIZE < length xs"
  unfolding total_batches_def EMBEDDING_BATCH_SIZE_def by arith

lemma concat_batches: "concat (map (batch_at xs) [0..<total_batches xs]) = xs"
  by (simp add: take_batches total_batches_covers)

lemma batch_at_bounds:
  assumes "j < total_batches xs"
  shows "0 < length (batch_at xs j) \<and> length (batch_at xs j) \<le> EMBEDDING_BATCH_SIZE"
  using assms batch_size_pos by (simp add: less_total_batches batch_at_def)

lemma full_batches:
  assumes "k * EMBEDDING_BATCH_SIZE < length xs"
  shows "(\<Sum>j<k. length (batch_at xs j)) = k * EMBEDDING_BATCH_SIZE"
proof -
  have "length (batch_at xs j) = EMBEDDING_BATCH_SIZE" if "j < k" for j
  proof -
    from that have "Suc j \<le> k" by simp
    then have "Suc j * EMBEDDING_BATCH_SIZE \<le> k * EMBEDDING_BATCH_SIZE"
      by (rule mult_le_mono1)
    with assms have "j * EMBEDDING_BATCH_SIZE + EMBEDDING_BATCH_SIZE < length xs"
      by (simp add: add.commute)
    then show ?thesis by (simp add: batch_at_def)
  qed
  then show ?thesis by simp
qed

section \<open>Whole calls\<close>

lemma create_knowledge_base_unfold:
  "create_knowledge_base p darg w =
     (if \<not> api_key_set w then (Inl ConfigError, w)
      else case documents_of w darg of
             Inl e \<Rightarrow> (Inl e, w)
           | Inr docs \<Rightarrow>
               if docs = [] then (Inr (), w)
               else batch_loop p docs 0 (get_or_create_collection w))"
  by (simp add: create_knowledge_base_def documents_of_def)

lemma create_loads:
  assumes "create_knowledge_base p darg w = (Inr u, w')"
  shows "\<exists>docs. documents_of w darg = Inr docs"
  using assms
  by (cases "documents_of w darg") (simp_all add: create_knowledge_base_unfold split: if_splits)

lemma batch_at_eq: "batch_at xs j = take EMBEDDING_BATCH_SIZE (drop (j * EMBEDDING_BATCH_SIZE) xs)"
  by (simp add: batch_at_def)

lemma create_returns:
  assumes "create_knowledge_base p darg w = (Inr u, w')"
    and "documents_of w darg = Inr docs"
  shows "\<exists>new.
           entries w' = entries w @ new \<and>
           length new = length docs \<and>
           map entry_id new =
             map doc_id [length (entries w)..<length (entries w) + length docs] \<and>
           map entry_document new = map page_content docs \<and>
           map entry_metadata new = map metadata docs \<and>
           OPENAI_API_KEY w' = OPENAI_API_KEY w \<and>
           FINAL_JSON_DIR w' = FINAL_JSON_DIR w \<and>
           (\<forall>j<total_batches docs.
              \<exists>vs. p (embed_calls w + j) (map page_content (batch_at docs j))
                     = Some vs \<and>
                   length vs = length (batch_at docs j) \<and>
                   batch_at new j =
                     batch_entries (length (entries w) + j * EMBEDDING_BATCH_SIZE) vs
                       (batch_at docs j))"
proof (cases "docs = []")
  case True
  with assms have "w' = w"
    by (simp add: create_knowledge_base_unfold split: if_splits)
  with True show ?thesis
    by (intro exI [of _ "[]"]) (simp add: total_batches_def EMBEDDING_BATCH_SIZE_def)
next
  case False
  let ?w0 = "get_or_create_collection w"
  from assms False have run: "batch_loop p docs 0 ?w0 = (Inr u, w')"
    by (simp add: create_knowledge_base_unfold split: if_splits)
  have c0: "collection ?w0 = Some (entries w)"
    by (rule get_or_create_collection_simps)
  from batch_loop_returns [OF run c0]
  obtain new where
    n1: "collection w' = Some (entries w @ new)"
    and n2: "length new = length docs - 0"
    and n3: "map entry_id new =
             map doc_id [length (entries w)..<length (entries w) + (length docs - 0)]"
    and n4: "map entry_document new = map page_content (drop 0 docs)"
    and n5: "map entry_metadata new = map metadata (drop 0 docs)"
    and n6: "OPENAI_API_KEY w' = OPENAI_API_KEY ?w0"
    and n7: "FINAL_JSON_DIR w' = FINAL_JSON_DIR ?w0"
    and n8: "\<And>j. 0 + j * EMBEDDING_BATCH_SIZE < length docs \<Longrightarrow>
               \<exists>vs. p (embed_calls ?w0 + j)
                      (map page_content
                         (take EMBEDDING_BATCH_SIZE
                            (drop (0 + j * EMBEDDING_BATCH_SIZE) docs))) = Some vs \<and>
                    length vs =
                      length (take EMBEDDING_BATCH_SIZE
                                (drop (0 + j * EMBEDDING_BATCH_SIZE) docs)) \<and>
                    take EMBEDDING_BATCH_SIZE (drop (j * EMBEDDING_BATCH_SIZE) new) =
                      batch_entries (length (entries w) + j * EMBEDDING_BATCH_SIZE) vs
                        (take EMBEDDING_BATCH_SIZE
                           (drop (0 + j * EMBEDDING_BATCH_SIZE) docs))"
    by blast
  have b: "\<exists>vs. p (embed_calls w + j) (map page_content (batch_at docs j))
                  = Some vs \<and>
                length vs = length (batch_at docs j) \<and>
                batch_at new j =
                  batch_entries (length (entries w) + j * EMBEDDING_BATCH_SIZE) vs
                    (batch_at docs j)"
    if "j < total_batches docs" for j
  proof -
    from that have "0 + j * EMBEDDING_BATCH_SIZE < length docs"
      by (simp add: less_total_batches)
    from n8 [OF this] show ?thesis
      by (simp add: batch_at_eq get_or_create_collection_simps)
  qed
  from n1 have "entries w' = entries w @ new" by (rule entries_Some)
  with n2 n3 n4 n5 n6 n7 b show ?thesis
    by (intro exI [of _ new]) (simp add: get_or_create_collection_simps)
qed

lemma length_docs_to_ingest: "length (docs_to_ingest recs) = length recs"
  by (simp add: docs_to_ingest_def)

lemma update_returns:
  assumes "update_knowledge_base p recs w = (Inr u, w')"
  shows "\<exists>new.
           entries w' = entries w @ new \<and>
           length new = length recs \<and>
           map entry_id new = map doc_id [length (entries w)..<length (entries w) + length recs] \<and>
           map entry_document new = map page_content (docs_to_ingest recs) \<and>
           map entry_metadata new = map metadata (docs_to_ingest recs) \<and>
           OPENAI_API_KEY w' = OPENAI_API_KEY w \<and>
           FINAL_JSON_DIR w' = FINAL_JSON_DIR w"
proof (cases "recs = []")
  case True
  with assms have "w' = w" by (simp add: update_knowledge_base_def)
  with True show ?thesis by (intro exI [of _ "[]"]) (simp add: docs_to_ingest_def)
next
  case False
  let ?w0 = "get_or_create_collection w"
  from False have ne: "docs_to_ingest recs \<noteq> []"
    by (simp add: docs_to_ingest_def)
  from assms False ne
  have run: "embed_and_add p (docs_to_ingest recs) ?w0 = (Inr u, w')"
    by (simp add: update_knowledge_base_def Let_def split: if_splits)
  have c0: "collection ?w0 = Some (entries w)"
    by (rule get_or_create_collection_simps)
  from embed_and_add_returns [OF run c0]
  obtain vs where lvs: "length vs = length (docs_to_ingest recs)"
    and w': "w' = ?w0\<lparr>embed_calls := Suc (embed_calls ?w0),
                       collection := Some (entries w @
                         batch_entries (length (entries w)) vs (docs_to_ingest recs))\<rparr>"
    by blast
  let ?new = "batch_entries (length (entries w)) vs (docs_to_ingest recs)"
  have "entries w' = entries w @ ?new"
    by (simp add: w' entries_def)
  moreover have "length ?new = length recs"
    using length_batch_entries [OF lvs] by (simp add: length_docs_to_ingest)
  moreover have "map entry_id ?new =
                 map doc_id [length (entries w)..<length (entries w) + length recs]"
    using batch_entries_ids [OF lvs] by (simp add: length_docs_to_ingest)
  moreover note batch_entries_documents [OF lvs] batch_entries_metadata [OF lvs]
  moreover have "OPENAI_API_KEY w' = OPENAI_API_KEY w" "FINAL_JSON_DIR w' = FINAL_JSON_DIR w"
    by (simp_all add: w' get_or_create_collection_simps)
  ultimately show ?thesis by blast
qed

lemma ingest_size_cong:
  "FINAL_JSON_DIR w1 = FINAL_JSON_DIR w \<Longrightarrow> ingest_size w1 c = ingest_size w c"
  by (cases "(w, c)" rule: ingest_size.cases) simp_all

lemma ingest_returns:
  assumes "ingest p c w = (Inr u, w')"
  shows "\<exists>new.
           entries w' = entries w @ new \<and>
           length new = ingest_size w c \<and>
           map entry_id new =
             map doc_id [length (entries w)..<length (entries w) + ingest_size w c] \<and>
           FINAL_JSON_DIR w' = FINAL_JSON_DIR w"
proof (cases c)
  case (Create darg)
  from assms Create have r: "create_knowledge_base p darg w = (Inr u, w')"
    by simp
  from create_loads [OF r] obtain docs where d: "documents_of w darg = Inr docs"
    by blast
  then have "ingest_size w (Create darg) = length docs"
    by (cases darg) (simp_all add: documents_of_def)
  with create_returns [OF r d] Create show ?thesis
    by auto
next
  case (Update recs)
  with update_returns [of p recs w u w'] assms show ?thesis
    by auto
qed

lemma batch_loop_succeeds:
  assumes "collection w = Some es" and "wf_ids es"
    and "\<forall>n texts. \<exists>vs. p n texts = Some vs \<and> length vs = length texts"
  shows "\<exists>w'. batch_loop p docs i w = (Inr (), w')"
  using assms(1,2)
proof (induction "length docs - i" arbitrary: i w es rule: less_induct)
  case less
  let ?B = "EMBEDDING_BATCH_SIZE"
  show ?case
  proof (cases "i < length docs")
    case False
    then show ?thesis by (simp add: batch_loop_done)
  next
    case True
    let ?batch = "take ?B (drop i docs)"
    from assms(3) obtain vs
      where vs: "p (embed_calls w) (map page_content ?batch) = Some vs"
        and "length vs = length (map page_content ?batch)"
      by blast
    then have lvs: "length vs = length ?batch" by simp
    let ?w1 = "w\<lparr>embed_calls := Suc (embed_calls w),
                  collection := Some (es @ batch_entries (length es) vs ?batch)\<rparr>"
    have "embed_and_add p ?batch w = (Inr (), ?w1)"
      using less.prems vs lvs by (rule embed_and_add_ok)
    then have step: "batch_loop p docs i w = batch_loop p docs (i + ?B) ?w1"
      using batch_loop_step [OF True, of p w] by simp
    have dec: "length docs - (i + ?B) < length docs - i"
      using True batch_size_pos by arith
    have c1: "collection ?w1 = Some (es @ batch_entries (length es) vs ?batch)" by simp
    have wf1: "wf_ids (es @ batch_entries (length es) vs ?batch)"
      using less.prems(2) lvs by (rule wf_ids_append)
    from less.hyps [OF dec c1 wf1] step show ?thesis by simp
  qed
qed

lemma create_succeeds:
  assumes "api_key_set w" and "wf_ids (entries w)"
    and "\<forall>n texts. \<exists>vs. p n texts = Some vs \<and> length vs = length texts"
    and "documents_of w documents_arg = Inr docs"
  shows "\<exists>w'. create_knowledge_base p documents_arg w = (Inr (), w')"
proof (cases "docs = []")
  case True
  with assms(1,4) show ?thesis by (simp add: create_knowledge_base_unfold)
next
  case False
  have "collection (get_or_create_collection w) = Some (entries w)"
    by (rule get_or_create_collection_simps)
  from batch_loop_succeeds [OF this assms(2,3)] assms(1,4) False show ?thesis
    by (simp add: create_knowledge_base_unfold)
qed

lemma run_ingests_returns:
  assumes "run_ingests p calls w = (Inr u, w')"
  shows "\<exists>new.
           entries w' = entries w @ new \<and>
           length new = sum_list (map (ingest_size w) calls) \<and>
           map entry_id new =
             map doc_id [length (entries w)..<
                         length (entries w) + sum_list (map (ingest_size w) calls)] \<and>
           FINAL_JSON_DIR w' = FINAL_JSON_DIR w"
  using assms
proof (induction calls arbitrary: w)
  case Nil
  then show ?case by simp
next
  case (Cons c cs)
  obtain r w1 where s: "ingest p c w = (r, w1)"
    by (cases "ingest p c w") auto
  with Cons.prems obtain u1 where r: "r = Inr u1"
    and rest: "run_ingests p cs w1 = (Inr u, w')"
    by (cases r) auto
  from ingest_returns [OF s [unfolded r]] obtain new0 where
    a1: "entries w1 = entries w @ new0"
    and a2: "length new0 = ingest_size w c"
    and a3: "map entry_id new0 =
             map doc_id [length (entries w)..<length (entries w) + ingest_size w c]"
    and a4: "FINAL_JSON_DIR w1 = FINAL_JSON_DIR w"
    by blast
  from Cons.IH [OF rest] obtain new1 where
    b1: "entries w' = entries w1 @ new1"
    and b2: "length new1 = sum_list (map (ingest_size w1) cs)"
    and b3: "map entry_id new1 =
             map doc_id [length (entries w1)..<
                         length (entries w1) + sum_list (map (ingest_size w1) cs)]"
    and b4: "FINAL_JSON_DIR w' = FINAL_JSON_DIR w1"
    by blast
  have sz: "map (ingest_size w1) cs = map (ingest_size w) cs"
    using ingest_size_cong [OF a4] by (intro map_cong refl)
  let ?n = "length (entries w)" and ?m = "ingest_size w c"
  let ?s = "sum_list (map (ingest_size w) cs)"
  have split: "[?n..<?n + ?m + ?s] = [?n..<?n + ?m] @ [?n + ?m..<?n + ?m + ?s]"
    by (rule upt_add_eq_append) simp
  have l1: "length (entries w1) = ?n + ?m"
    unfolding a1 using a2 by simp
  have e1: "map entry_id new1 = map doc_id [?n + ?m..<?n + ?m + ?s]"
    using b3 unfolding l1 sz .
  have "map entry_id (new0 @ new1) =
        map doc_id [?n..<?n + ?m] @ map doc_id [?n + ?m..<?n + ?m + ?s]"
    unfolding map_append a3 e1 ..
  also have "\<dots> = map doc_id [?n..<?n + ?m + ?s]"
    unfolding split map_append ..
  finally have g3: "map entry_id (new0 @ new1) = map doc_id [?n..<?n + (?m + ?s)]"
    by (simp only: add.assoc)
  have g1: "entries w' = entries w @ (new0 @ new1)"
    unfolding b1 a1 by simp
  have g2: "length (new0 @ new1) = ?m + ?s"
    unfolding length_append a2 b2 sz ..
  have g4: "FINAL_JSON_DIR w' = FINAL_JSON_DIR w"
    unfolding b4 a4 ..
  have sum: "sum_list (map (ingest_size w) (c # cs)) = ?m + ?s"
    by simp
  show ?case
    unfolding sum using g1 g2 g3 g4 by blast
qed

lemma run_ingests_split:
  assumes "run_ingests p (cs1 @ c # cs2) w = (Inr u, w')"
  shows "\<exists>w1 w2. run_ingests p cs1 w = (Inr (), w1) \<and>
                 ingest p c w1 = (Inr (), w2) \<and>
                 run_ingests p cs2 w2 = (Inr u, w')"
  using assms
proof (induction cs1 arbitrary: w)
  case Nil
  obtain r w2 where s: "ingest p c w = (r, w2)"
    by (cases "ingest p c w") auto
  with Nil show ?case by (cases r) auto
next
  case (Cons a cs1)
  obtain r w0 where s: "ingest p a w = (r, w0)"
    by (cases "ingest p a w") auto
  with Cons.prems obtain u0 where r: "r = Inr u0"
    and rest: "run_ingests p (cs1 @ c # cs2) w0 = (Inr u, w')"
    by (cases r) auto
  from Cons.IH [OF rest] s r show ?case by auto
qed

lemma wf_ids_run:
  assumes "wf_ids es" and "map entry_id new = map doc_id [length es..<length es + length new]"
  shows "wf_ids (es @ new)"
proof -
  have "[0..<length es + length new] = [0..<length es] @ [length es..<length es + length new]"
    by (rule upt_add_eq_append) simp
  with assms show ?thesis by (simp add: wf_ids_def)
qed

lemma load_json_files_all_malformed:
  "\<forall>(name, c) \<in> set files. c = Malformed \<Longrightarrow> load_json_files files = Inr []"
  by (induction files rule: load_json_files.induct) auto

lemma load_no_parseable:
  assumes "\<forall>(name, c) \<in> set files. suffix ''.json'' name \<longrightarrow> c = Malformed"
  shows "load_documents_from_json_dir (Some files) = Inr []"
  unfolding load_documents_from_json_dir_def using assms
  by (auto intro!: load_json_files_all_malformed)

lemma nth_docs_to_ingest:
  "i < length recs \<Longrightarrow>
   docs_to_ingest recs ! i =
     \<lparr>page_content = json_dumps (JObject (recs ! i)),
      metadata = [(''source'', py_format (map_of (recs ! i) ''documentId'') @ ''.json'')]\<rparr>"
  by (simp add: docs_to_ingest_def)

lemma load_json_files_parsed:
  "map_sum id (map page_content)
     (load_json_files (map (\<lambda>(name, r). (name, Parsed (JObject r))) files)) =
   Inr (map (\<lambda>(name, r). json_dumps (JObject r)) files)"
  by (induction files) (auto split: sum.splits)

section \<open>Facts about the example inputs\<close>

lemma mock_embedder_total:
  "\<forall>n texts. \<exists>vs. mock_embedder n texts = Some vs \<and> length vs = length texts"
  by (simp add: mock_embedder_def)

lemma api_key_set_fresh: "api_key_set fresh_world"
  by (simp add: api_key_set_def fresh_world_def)

lemma wf_ids_fresh_world: "wf_ids (entries fresh_world)"
  by (simp add: wf_ids_def entries_def fresh_world_def)

section \<open>The claims\<close>

text \<open>
  Claim C1. One writer runs ingest calls in sequence on a collection whose rows are
  numbered \<^verbatim>\<open>doc_0\<close>, \<^verbatim>\<open>doc_1\<close>, ... (a fresh collection is one), and every call
  returns. Then the collection has grown by the sum of the calls' record counts, its ids
  are pairwise distinct and are exactly \<^verbatim>\<open>doc_0\<close> up to the last row, and each call
  added, after the rows that were there, rows whose ids start at the count the collection
  had when that call began and run on without a gap; later calls leave them in place.
\<close>

theorem sequential_ingest_ids:
  assumes "run_ingests p calls w = (Inr (), w')" and "wf_ids (entries w)"
  shows "length (entries w') = length (entries w) + sum_list (map (ingest_size w) calls) \<and>
         distinct (map entry_id (entries w')) \<and>
         map entry_id (entries w') = map doc_id [0..<length (entries w')] \<and>
         (\<forall>cs1 c cs2. calls = cs1 @ c # cs2 \<longrightarrow>
            (\<exists>w1 w2.
               run_ingests p cs1 w = (Inr (), w1) \<and>
               ingest p c w1 = (Inr (), w2) \<and>
               run_ingests p cs2 w2 = (Inr (), w') \<and>
               collection_count w1 =
                 collection_count w + sum_list (map (ingest_size w) cs1) \<and>
               take (collection_count w1) (entries w2) = entries w1 \<and>
               map entry_id (drop (collection_count w1) (entries w2)) =
                 map doc_id [collection_count w1..<collection_count w1 + ingest_size w c] \<and>
               take (collection_count w2) (entries w') = entries w2))"
proof -
  from run_ingests_returns [OF assms(1)] obtain new where
    n1: "entries w' = entries w @ new"
    and n2: "length new = sum_list (map (ingest_size w) calls)"
    and n3: "map entry_id new =
             map doc_id [length (entries w)..<
                         length (entries w) + sum_list (map (ingest_size w) calls)]"
    by blast
  have wf: "wf_ids (entries w')"
    unfolding n1 using assms(2) n3 n2 by (intro wf_ids_run) simp_all
  have g1: "length (entries w') = length (entries w) + sum_list (map (ingest_size w) calls)"
    using n1 n2 by simp
  have g2: "distinct (map entry_id (entries w'))"
    using wf by (rule wf_ids_distinct)
  have g3: "map entry_id (entries w') = map doc_id [0..<length (entries w')]"
    using wf by (simp add: wf_ids_def)
  have g4: "\<exists>w1 w2.
              run_ingests p cs1 w = (Inr (), w1) \<and>
              ingest p c w1 = (Inr (), w2) \<and>
              run_ingests p cs2 w2 = (Inr (), w') \<and>
              collection_count w1 = collection_count w + sum_list (map (ingest_size w) cs1) \<and>
              take (collection_count w1) (entries w2) = entries w1 \<and>
              map entry_id (drop (collection_count w1) (entries w2)) =
                map doc_id [collection_count w1..<collection_count w1 + ingest_size w c] \<and>
              take (collection_count w2) (entries w') = entries w2"
    if "calls = cs1 @ c # cs2" for cs1 c cs2
  proof -
    from assms(1) that run_ingests_split [of p cs1 c cs2 w "()" w']
    obtain w1 w2 where r1: "run_ingests p cs1 w = (Inr (), w1)"
      and r2: "ingest p c w1 = (Inr (), w2)"
      and r3: "run_ingests p cs2 w2 = (Inr (), w')"
      by auto
    from run_ingests_returns [OF r1] obtain new1 where
      a1: "entries w1 = entries w @ new1"
      and a2: "length new1 = sum_list (map (ingest_size w) cs1)"
      and a3: "FINAL_JSON_DIR w1 = FINAL_JSON_DIR w"
      by blast
    from ingest_returns [OF r2] obtain new2 where
      b1: "entries w2 = entries w1 @ new2"
      and b2: "map entry_id new2 =
               map doc_id [length (entries w1)..<length (entries w1) + ingest_size w1 c]"
      by blast
    from run_ingests_returns [OF r3] obtain new3 where
      c1: "entries w' = entries w2 @ new3"
      by blast
    have "ingest_size w1 c = ingest_size w c"
      using a3 by (rule ingest_size_cong)
    with r1 r2 r3 a1 a2 b1 b2 c1 show ?thesis
      by (intro exI [of _ w1] exI [of _ w2]) (simp add: collection_count_def)
  qed
  from g1 g2 g3 g4 show ?thesis by blast
qed

theorem sequential_ingest_ids_witness:
  "wf_ids (entries fresh_world) \<and>
   fst (run_ingests mock_embedder
          [Update [record_A, record_B], Create (Some [note_doc]), Update [record_no_id]]
          fresh_world) = Inr () \<and>
   length (entries (snd (run_ingests mock_embedder
          [Update [record_A, record_B], Create (Some [note_doc]), Update [record_no_id]]
          fresh_world))) = 4 \<and>
   distinct (map entry_id (entries (snd (run_ingests mock_embedder
          [Update [record_A, record_B], Create (Some [note_doc]), Update [record_no_id]]
          fresh_world))))"
proof -
  let ?calls = "[Update [record_A, record_B], Create (Some [note_doc]), Update [record_no_id]]"
  let ?run = "run_ingests mock_embedder ?calls fresh_world"
  have f: "fst ?run = Inr ()" by code_simp
  then have h: "?run = (Inr (), snd ?run)" by (simp add: prod_eq_iff)
  have e0: "entries fresh_world = []"
    by (simp add: entries_def fresh_world_def)
  from sequential_ingest_ids [OF h wf_ids_fresh_world]
  have l: "length (entries (snd ?run)) =
           length (entries fresh_world) + sum_list (map (ingest_size fresh_world) ?calls)"
    and d: "distinct (map entry_id (entries (snd ?run)))"
    by blast+
  from l have "length (entries (snd ?run)) = 4"
    by (simp add: e0)
  with f d wf_ids_fresh_world show ?thesis
    by (simp only: simp_thms)
qed

text \<open>
  Claim C2 as stated does not hold: \<^verbatim>\<open>json.dumps\<close> is called without \<^verbatim>\<open>sort_keys\<close>, so
  two records with the same fields in a different order are equal as mappings and have
  different texts.
\<close>

theorem serialization_field_order_counterexample:
  "map_of [(''documentId'', JString ''A''), (''totalUsage'', JInt 100)] =
   map_of [(''totalUsage'', JInt 100), (''documentId'', JString ''A'')] \<and>
   map page_content
     (docs_to_ingest [[(''documentId'', JString ''A''), (''totalUsage'', JInt 100)]]) \<noteq>
   map page_content
     (docs_to_ingest [[(''totalUsage'', JInt 100), (''documentId'', JString ''A'')]])"
proof
  show "map_of [(''documentId'', JString ''A''), (''totalUsage'', JInt 100)] =
        map_of [(''totalUsage'', JInt 100), (''documentId'', JString ''A'')]"
    by (rule ext) simp
  show "map page_content
          (docs_to_ingest [[(''documentId'', JString ''A''), (''totalUsage'', JInt 100)]]) \<noteq>
        map page_content
          (docs_to_ingest [[(''totalUsage'', JInt 100), (''documentId'', JString ''A'')]])"
    by code_simp
qed

text \<open>
  Claim C2, amended. The text of a record is a function of its fields in their order, and
  it is the same function in both paths: the directory loader, on files that hold the
  records, returns documents with the very texts the incremental path produces from the
  records themselves.
\<close>

theorem serialization_same_in_both_paths:
  assumes "\<forall>(name, r) \<in> set files. suffix ''.json'' name"
  shows "map_sum id (map page_content)
           (load_documents_from_json_dir
              (Some (map (\<lambda>(name, r). (name, Parsed (JObject r))) files))) =
         Inr (map page_content (docs_to_ingest (map snd files)))"
proof -
  have "filter (\<lambda>(name, c). suffix ''.json'' name)
          (map (\<lambda>(name, r). (name, Parsed (JObject r))) files) =
        map (\<lambda>(name, r). (name, Parsed (JObject r))) files"
    using assms by (induction files) auto
  then show ?thesis
    by (simp add: load_documents_from_json_dir_def load_json_files_parsed docs_to_ingest_def
          case_prod_beta comp_def)
qed

theorem serialization_same_in_both_paths_witness:
  "suffix ''.json'' ''A.json'' \<and> suffix ''.json'' ''B.json'' \<and>
   map_sum id (map page_content)
     (load_documents_from_json_dir
        (Some [(''A.json'', Parsed (JObject record_A)), (''B.json'', Parsed (JObject record_B))])) =
   Inr (map page_content (docs_to_ingest [record_A, record_B]))"
  using serialization_same_in_both_paths [of "[(''A.json'', record_A), (''B.json'', record_B)]"]
  by (simp add: suffix_def)

text \<open>
  Claim C3. The credential is set, the collection's rows are numbered as above, the
  provider answers the first \<open>k\<close> batches and fails on batch \<open>k + 1\<close> (which exists).
  Then \<open>create_knowledge_base\<close> raises \<open>ProviderError\<close>; the collection holds its
  old rows followed by the rows of the first \<open>k\<close> batches and nothing else, so its count
  is the old count plus the sizes of these batches; the provider was not called again.
\<close>

theorem provider_failure_keeps_completed_batches:
  assumes "api_key_set w" and "wf_ids (entries w)"
    and "documents_of w documents_arg = Inr docs"
    and "k * EMBEDDING_BATCH_SIZE < length docs"
    and "\<forall>j<k. \<exists>vs. p (embed_calls w + j) (map page_content (batch_at docs j)) = Some vs \<and>
                      length vs = length (batch_at docs j)"
    and "p (embed_calls w + k) (map page_content (batch_at docs k)) = None"
  shows "\<exists>new w'.
           create_knowledge_base p documents_arg w = (Inl ProviderError, w') \<and>
           entries w' = entries w @ new \<and>
           map entry_document new = map page_content (concat (map (batch_at docs) [0..<k])) \<and>
           collection_count w' = collection_count w + (\<Sum>j<k. length (batch_at docs j)) \<and>
           embed_calls w' = embed_calls w + Suc k"
proof -
  let ?w0 = "get_or_create_collection w"
  from assms(4) have ne: "docs \<noteq> []"
    by auto
  have c0: "collection ?w0 = Some (entries w)"
    by (rule get_or_create_collection_simps)
  have ok: "\<forall>j<k. \<exists>vs. p (embed_calls ?w0 + j)
                (map page_content
                   (take EMBEDDING_BATCH_SIZE (drop (0 + j * EMBEDDING_BATCH_SIZE) docs))) = Some vs \<and>
              length vs =
                length (take EMBEDDING_BATCH_SIZE (drop (0 + j * EMBEDDING_BATCH_SIZE) docs))"
    using assms(5) by (simp add: batch_at_eq get_or_create_collection_simps)
  have fail: "p (embed_calls ?w0 + k)
                (map page_content
                   (take EMBEDDING_BATCH_SIZE (drop (0 + k * EMBEDDING_BATCH_SIZE) docs))) = None"
    using assms(6) by (simp add: batch_at_eq get_or_create_collection_simps)
  have ex: "0 + k * EMBEDDING_BATCH_SIZE < length docs"
    using assms(4) by simp
  from batch_loop_fails [OF c0 assms(2) ok fail ex]
  obtain new w' where
    r: "batch_loop p docs 0 ?w0 = (Inl ProviderError, w')"
    and n1: "collection w' = Some (entries w @ new)"
    and n2: "length new = k * EMBEDDING_BATCH_SIZE"
    and n3: "map entry_document new =
             map page_content (take (k * EMBEDDING_BATCH_SIZE) (drop 0 docs))"
    and n4: "embed_calls w' = embed_calls ?w0 + Suc k"
    by blast
  have "create_knowledge_base p documents_arg w = (Inl ProviderError, w')"
    using assms(1) ne r by (simp add: create_knowledge_base_unfold assms(3))
  moreover have "entries w' = entries w @ new"
    using n1 by (rule entries_Some)
  moreover have "map entry_document new = map page_content (concat (map (batch_at docs) [0..<k]))"
    using n3 by (simp add: take_batches)
  moreover have "collection_count w' = collection_count w + (\<Sum>j<k. length (batch_at docs j))"
    using n1 n2 full_batches [OF assms(4)] by (simp add: collection_count_def entries_def)
  moreover have "embed_calls w' = embed_calls w + Suc k"
    using n4 by (simp add: get_or_create_collection_simps)
  ultimately show ?thesis by blast
qed

theorem provider_failure_keeps_completed_batches_witness:
  "api_key_set fresh_world \<and>
   wf_ids (entries fresh_world) \<and>
   1 * EMBEDDING_BATCH_SIZE < length (replicate 250 note_doc) \<and>
   failing_embedder 1 (embed_calls fresh_world + 1)
     (map page_content (batch_at (replicate 250 note_doc) 1)) = None \<and>
   fst (create_knowledge_base (failing_embedder 1) (Some (replicate 250 note_doc)) fresh_world)
     = Inl ProviderError \<and>
   collection_count
     (snd (create_knowledge_base (failing_embedder 1) (Some (replicate 250 note_doc)) fresh_world))
     = 100"
proof -
  let ?docs = "replicate 250 note_doc"
  have h3: "documents_of fresh_world (Some ?docs) = Inr ?docs"
    by (simp add: documents_of_def)
  have h4: "1 * EMBEDDING_BATCH_SIZE < length ?docs"
    by (simp add: EMBEDDING_BATCH_SIZE_def)
  have h5: "\<forall>j<1. \<exists>vs. failing_embedder 1 (embed_calls fresh_world + j)
                         (map page_content (batch_at ?docs j)) = Some vs \<and>
                       length vs = length (batch_at ?docs j)"
    by (simp add: failing_embedder_def fresh_world_def)
  have h6: "failing_embedder 1 (embed_calls fresh_world + 1)
              (map page_content (batch_at ?docs 1)) = None"
    by (simp add: failing_embedder_def fresh_world_def)
  have s: "(\<Sum>j<1. length (batch_at ?docs j)) = 100"
    by (simp add: batch_at_def EMBEDDING_BATCH_SIZE_def)
  have c: "collection_count fresh_world = 0"
    by (simp add: collection_count_def entries_def fresh_world_def)
  from provider_failure_keeps_completed_batches
         [OF api_key_set_fresh wf_ids_fresh_world h3 h4 h5 h6]
  obtain new w' where
    "create_knowledge_base (failing_embedder 1) (Some ?docs) fresh_world = (Inl ProviderError, w')"
    and "collection_count w' = collection_count fresh_world + (\<Sum>j<1. length (batch_at ?docs j))"
    by blast
  with api_key_set_fresh wf_ids_fresh_world h4 h6 show ?thesis
    by (simp only: s c fst_conv snd_conv add_0 simp_thms)
qed

text \<open>
  Claim C4. The collection has never been created. For every query and every
  \<^verbatim>\<open>n_results\<close>, \<open>query_knowledge_base\<close> returns no list, empty or not; with the
  credential set, the error it raises is \<open>IndexError\<close>, and nothing is changed.
\<close>

theorem query_before_create:
  assumes "collection w = None"
  shows "(api_key_set w \<longrightarrow> query_knowledge_base search q k w = (Inl IndexError, w)) \<and>
         (\<forall>texts. fst (query_knowledge_base search q k w) \<noteq> Inr texts)"
  using assms by (simp add: query_knowledge_base_def get_collection_def)

theorem query_before_create_witness:
  "collection fresh_world = None \<and> api_key_set fresh_world \<and>
   query_knowledge_base empty_searcher ''totalUsage'' 2 fresh_world = (Inl IndexError, fresh_world)"
  using query_before_create [of fresh_world empty_searcher "''totalUsage''" 2]
  by (simp add: fresh_world_def api_key_set_def)

text \<open>
  Claim C5 as stated does not hold for \<open>update_knowledge_base\<close> on the empty list: the
  test for an empty input comes before the test of the credential, so the call returns.
\<close>

theorem update_empty_without_credential_counterexample:
  "\<not> api_key_set no_key_world \<and>
   update_knowledge_base mock_embedder [] no_key_world = (Inr (), no_key_world)"
  by (simp add: update_knowledge_base_def api_key_set_def no_key_world_def)

text \<open>
  Claim C5, amended. Without the credential, \<open>create_knowledge_base\<close> raises
  \<open>ConfigError\<close> and changes nothing, whatever its argument (no list, the empty list,
  any list); \<open>update_knowledge_base\<close> does the same on every non-empty list. On the
  empty list \<open>update_knowledge_base\<close> returns and changes nothing, with or without the
  credential.
\<close>

theorem config_error_before_side_effects:
  "(\<not> api_key_set w \<longrightarrow>
      create_knowledge_base p documents_arg w = (Inl ConfigError, w) \<and>
      (final_json_list \<noteq> [] \<longrightarrow>
         update_knowledge_base p final_json_list w = (Inl ConfigError, w))) \<and>
   update_knowledge_base p [] w = (Inr (), w)"
  by (simp add: create_knowledge_base_def update_knowledge_base_def)

theorem config_error_before_side_effects_witness:
  "\<not> api_key_set no_key_world \<and>
   create_knowledge_base mock_embedder (Some []) no_key_world = (Inl ConfigError, no_key_world) \<and>
   [record_A] \<noteq> [] \<and>
   update_knowledge_base mock_embedder [record_A] no_key_world = (Inl ConfigError, no_key_world) \<and>
   update_knowledge_base mock_embedder [] fresh_world = (Inr (), fresh_world)"
  using config_error_before_side_effects [of no_key_world mock_embedder "Some []" "[record_A]"]
    config_error_before_side_effects [of fresh_world mock_embedder "Some []" "[record_A]"]
  by (simp add: api_key_set_def no_key_world_def)

text \<open>
  Claim C6 as stated does not hold: the loader catches \<^verbatim>\<open>json.JSONDecodeError\<close> and
  nothing else, so a record directory whose only \<^verbatim>\<open>*.json\<close> entry cannot be read (it is
  a directory, or not UTF-8) holds no parseable JSON file, and \<open>create_knowledge_base\<close>
  raises on it, with the credential set.
\<close>

theorem create_unreadable_file_counterexample:
  "api_key_set unreadable_world \<and>
   FINAL_JSON_DIR unreadable_world = Some [(''scan.json'', Unreadable)] \<and>
   create_knowledge_base mock_embedder None unreadable_world = (Inl FileError, unreadable_world)"
  by (simp add: unreadable_world_def api_key_set_def create_knowledge_base_def
        load_documents_from_json_dir_def suffix_def)

text \<open>
  Claim C6, amended. \<open>update_knowledge_base\<close> on the empty list returns and changes
  nothing. When every \<^verbatim>\<open>*.json\<close> file of the record directory fails to decode with
  \<^verbatim>\<open>json.JSONDecodeError\<close> (an empty directory is such a one), \<open>create_knowledge_base\<close>
  changes nothing, and with the credential set it returns without error (without it,
  the call has raised \<open>ConfigError\<close> before looking at the directory, see C5).
\<close>

theorem empty_input_noop:
  "update_knowledge_base p [] w = (Inr (), w) \<and>
   (FINAL_JSON_DIR w = Some files \<and>
    (\<forall>(name, c) \<in> set files. suffix ''.json'' name \<longrightarrow> c = Malformed) \<longrightarrow>
      snd (create_knowledge_base p None w) = w \<and>
      (api_key_set w \<longrightarrow> create_knowledge_base p None w = (Inr (), w)))"
  by (auto simp: update_knowledge_base_def create_knowledge_base_def load_no_parseable)

theorem empty_input_noop_witness:
  "update_knowledge_base mock_embedder [] unparseable_world = (Inr (), unparseable_world) \<and>
   FINAL_JSON_DIR unparseable_world =
     Some [(''broken.json'', Malformed), (''notes.txt'', Parsed JNull)] \<and>
   \<not> suffix ''.json'' ''notes.txt'' \<and>
   api_key_set unparseable_world \<and>
   create_knowledge_base mock_embedder None unparseable_world = (Inr (), unparseable_world)"
  using empty_input_noop [of mock_embedder unparseable_world
      "[(''broken.json'', Malformed), (''notes.txt'', Parsed JNull)]"]
  by (simp add: unparseable_world_def api_key_set_def suffix_def)

text \<open>
  Claim C7. A call of \<open>create_knowledge_base\<close> on documents \<open>docs\<close> returns. Then
  \<open>docs\<close> is the concatenation of its batches, each of them non-empty and of at most
  \<open>EMBEDDING_BATCH_SIZE\<close> documents; batch \<open>j\<close> is what the provider is given in its
  call number \<open>j\<close> of this run; the rows added for batch \<open>j\<close> carry, position by
  position, the vectors the provider answered and the texts of the batch, under ids that
  start at the count the collection had before the batch and go up by one; and the texts
  added over the whole call are the texts of \<open>docs\<close> in their order.
\<close>

theorem create_batches_in_order:
  assumes "create_knowledge_base p documents_arg w = (Inr (), w')"
    and "documents_of w documents_arg = Inr docs"
  shows "concat (map (batch_at docs) [0..<total_batches docs]) = docs \<and>
         (\<forall>j<total_batches docs.
            0 < length (batch_at docs j) \<and> length (batch_at docs j) \<le> EMBEDDING_BATCH_SIZE) \<and>
         (\<exists>new.
            entries w' = entries w @ new \<and>
            map entry_document new = map page_content docs \<and>
            (\<forall>j<total_batches docs.
               \<exists>vs. p (embed_calls w + j) (map page_content (batch_at docs j)) = Some vs \<and>
                    map entry_embedding (batch_at new j) = vs \<and>
                    map entry_document (batch_at new j) = map page_content (batch_at docs j) \<and>
                    map entry_id (batch_at new j) =
                      map doc_id
                        [collection_count w + j * EMBEDDING_BATCH_SIZE..<
                         collection_count w + j * EMBEDDING_BATCH_SIZE + length (batch_at docs j)]))"
proof -
  from create_returns [OF assms] obtain new where
    n1: "entries w' = entries w @ new"
    and n2: "map entry_document new = map page_content docs"
    and n3: "\<And>j. j < total_batches docs \<Longrightarrow>
               \<exists>vs. p (embed_calls w + j) (map page_content (batch_at docs j)) = Some vs \<and>
                    length vs = length (batch_at docs j) \<and>
                    batch_at new j =
                      batch_entries (length (entries w) + j * EMBEDDING_BATCH_SIZE) vs
                        (batch_at docs j)"
    by blast
  have g: "\<exists>vs. p (embed_calls w + j) (map page_content (batch_at docs j)) = Some vs \<and>
                map entry_embedding (batch_at new j) = vs \<and>
                map entry_document (batch_at new j) = map page_content (batch_at docs j) \<and>
                map entry_id (batch_at new j) =
                  map doc_id
                    [collection_count w + j * EMBEDDING_BATCH_SIZE..<
                     collection_count w + j * EMBEDDING_BATCH_SIZE + length (batch_at docs j)]"
    if "j < total_batches docs" for j
  proof -
    from n3 [OF that] obtain vs where
      v1: "p (embed_calls w + j) (map page_content (batch_at docs j)) = Some vs"
      and v2: "length vs = length (batch_at docs j)"
      and v3: "batch_at new j =
               batch_entries (length (entries w) + j * EMBEDDING_BATCH_SIZE) vs (batch_at docs j)"
      by blast
    show ?thesis
      using v1 batch_entries_embeddings [OF v2] batch_entries_documents [OF v2]
        batch_entries_ids [OF v2]
      by (simp add: v3 collection_count_def)
  qed
  from concat_batches [of docs] batch_at_bounds [of _ docs] n1 n2 g
  show ?thesis by blast
qed

theorem create_batches_in_order_witness:
  "fst (create_knowledge_base mock_embedder (Some (replicate 250 note_doc)) fresh_world) = Inr () \<and>
   total_batches (replicate 250 note_doc) = 3 \<and>
   map entry_document
     (entries (snd (create_knowledge_base mock_embedder (Some (replicate 250 note_doc)) fresh_world)))
     = replicate 250 ''note'' \<and>
   map entry_id
     (batch_at
        (entries (snd (create_knowledge_base mock_embedder (Some (replicate 250 note_doc))
                         fresh_world))) 2)
     = map doc_id [200..<250]"
proof -
  let ?docs = "replicate 250 note_doc"
  let ?r = "create_knowledge_base mock_embedder (Some ?docs) fresh_world"
  have d: "documents_of fresh_world (Some ?docs) = Inr ?docs"
    by (simp add: documents_of_def)
  from create_succeeds [OF api_key_set_fresh wf_ids_fresh_world mock_embedder_total d]
  obtain w' where r: "?r = (Inr (), w')" by blast
  have e0: "entries fresh_world = []"
    by (simp add: entries_def fresh_world_def)
  have c0: "collection_count fresh_world = 0"
    by (simp add: collection_count_def e0)
  have t: "total_batches ?docs = 3"
    by (simp add: total_batches_def EMBEDDING_BATCH_SIZE_def)
  have l2: "length (batch_at ?docs 2) = 50"
    by (simp add: batch_at_def EMBEDDING_BATCH_SIZE_def)
  from create_batches_in_order [OF r d] obtain new where
    n1: "entries w' = entries fresh_world @ new"
    and n2: "map entry_document new = map page_content ?docs"
    and n3: "\<forall>j<total_batches ?docs.
               \<exists>vs. mock_embedder (embed_calls fresh_world + j)
                      (map page_content (batch_at ?docs j)) = Some vs \<and>
                    map entry_embedding (batch_at new j) = vs \<and>
                    map entry_document (batch_at new j) = map page_content (batch_at ?docs j) \<and>
                    map entry_id (batch_at new j) =
                      map doc_id
                        [collection_count fresh_world + j * EMBEDDING_BATCH_SIZE..<
                         collection_count fresh_world + j * EMBEDDING_BATCH_SIZE +
                         length (batch_at ?docs j)]"
    by blast
  have new: "entries w' = new"
    using n1 by (simp add: e0)
  have g1: "map entry_document (entries w') = replicate 250 ''note''"
    using n2 by (simp add: new note_doc_def)
  have "(2::nat) < total_batches ?docs"
    by (simp add: t)
  with n3 have "map entry_id (batch_at new 2) =
                map doc_id
                  [collection_count fresh_world + 2 * EMBEDDING_BATCH_SIZE..<
                   collection_count fresh_world + 2 * EMBEDDING_BATCH_SIZE +
                   length (batch_at ?docs 2)]"
    by blast
  then have g2: "map entry_id (batch_at (entries w') 2) = map doc_id [200..<250]"
    by (simp add: new c0 l2 EMBEDDING_BATCH_SIZE_def)
  from g1 g2 t show ?thesis
    by (simp only: r fst_conv snd_conv simp_thms)
qed

text \<open>
  Claim C8. For every query, \<open>generate_answer\<close> on the empty context list returns the
  fixed sentence and sends no request to the model. On a non-empty context list it sends
  exactly one request, to \<^verbatim>\<open>gpt-4o\<close> at temperature zero: the system message is the
  instruction to answer only from the context, and the user message is the heading, the
  first context, every further context after the separator (two newlines, three dashes,
  two newlines), then the question and the answer cue. The result of the call is what
  the model answers to that request, so a text it answers is returned unchanged.
\<close>

theorem generate_answer_spec:
  "generate_answer client q [] =
     (Inr ''I couldn't find any relevant documents to answer that.'', []) \<and>
   generate_answer client q (d # ds) =
     (client
        \<lparr>model = ''gpt-4o'',
         messages =
           [(''system'',
             ''You are an expert Q&A system. Answer the user's question based ONLY on the provided context documents. If the answer isn't in the context, say so.''),
            (''user'',
             ''CONTEXT DOCUMENTS:\<newline>'' @ d @
             concat (map (\<lambda>x. ''\<newline>\<newline>---\<newline>\<newline>'' @ x) ds) @
             ''\<newline>\<newline>USER'S QUESTION:\<newline>'' @ q @ ''\<newline>\<newline>ANSWER:'')],
         temperature = 0\<rparr>,
      [\<lparr>model = ''gpt-4o'',
        messages =
          [(''system'',
            ''You are an expert Q&A system. Answer the user's question based ONLY on the provided context documents. If the answer isn't in the context, say so.''),
           (''user'',
            ''CONTEXT DOCUMENTS:\<newline>'' @ d @
            concat (map (\<lambda>x. ''\<newline>\<newline>---\<newline>\<newline>'' @ x) ds) @
            ''\<newline>\<newline>USER'S QUESTION:\<newline>'' @ q @ ''\<newline>\<newline>ANSWER:'')],
        temperature = 0\<rparr>])"
  by (simp add: generate_answer_def answer_request_def Let_def no_documents_message_def
        system_prompt_def user_prompt_def context_separator_def str_join_Cons)

theorem generate_answer_spec_witness:
  "generate_answer (\<lambda>r. Inr ''canned'') ''q'' [] =
     (Inr ''I couldn't find any relevant documents to answer that.'', []) \<and>
   fst (generate_answer (\<lambda>r. Inr ''canned'') ''q'' [''A'', ''B'']) = Inr ''canned'' \<and>
   map (\<lambda>r. messages r ! 1) (snd (generate_answer (\<lambda>r. Inr ''canned'') ''q'' [''A'', ''B''])) =
     [(''user'',
       ''CONTEXT DOCUMENTS:\<newline>A\<newline>\<newline>---\<newline>\<newline>B\<newline>\<newline>USER'S QUESTION:\<newline>q\<newline>\<newline>ANSWER:'')] \<and>
   map temperature (snd (generate_answer (\<lambda>r. Inr ''canned'') ''q'' [''A'', ''B''])) = [0]"
  using generate_answer_spec [of "\<lambda>r. Inr ''canned''" "''q''" "''A''" "[''B'']"]
  by simp

text \<open>
  Claim C9. The record directory does not exist or yields no documents. Then
  \<open>create_knowledge_base\<close> leaves everything as it was, whether it raises (no
  credential) or returns (credential set): the collection is not opened or created. So
  when the call returned on a deployment that had no collection, a query after it still
  raises \<open>IndexError\<close>.
\<close>

theorem create_without_documents:
  assumes "FINAL_JSON_DIR w = None \<or> load_documents_from_json_dir (FINAL_JSON_DIR w) = Inr []"
  shows "snd (create_knowledge_base p None w) = w \<and>
         (api_key_set w \<longrightarrow> create_knowledge_base p None w = (Inr (), w)) \<and>
         (fst (create_knowledge_base p None w) = Inr () \<and> collection w = None \<longrightarrow>
            query_knowledge_base search q k (snd (create_knowledge_base p None w)) =
              (Inl IndexError, w))"
  using assms
  by (auto simp: create_knowledge_base_def load_documents_from_json_dir_def
        query_knowledge_base_def get_collection_def)

theorem create_without_documents_witness:
  "FINAL_JSON_DIR fresh_world = None \<and>
   create_knowledge_base mock_embedder None fresh_world = (Inr (), fresh_world) \<and>
   collection fresh_world = None \<and>
   query_knowledge_base empty_searcher ''totalUsage'' 15
     (snd (create_knowledge_base mock_embedder None fresh_world)) = (Inl IndexError, fresh_world)"
  using create_without_documents [of fresh_world mock_embedder empty_searcher "''totalUsage''" 15]
  by (simp add: fresh_world_def api_key_set_def create_knowledge_base_def
        load_documents_from_json_dir_def)

text \<open>
  Claim C10. The credential is set, the collection's rows are numbered as above and the
  provider answers the call. Then \<open>update_knowledge_base\<close> returns, and it has added one
  row for each record, in order; the row of a record without \<^verbatim>\<open>documentId\<close> holds the
  record's text, its vector, the next id, and the source label \<^verbatim>\<open>None.json\<close>.
\<close>

theorem update_without_document_id:
  assumes "api_key_set w" and "wf_ids (entries w)"
    and "p (embed_calls w) (map page_content (docs_to_ingest recs)) = Some vs"
    and "length vs = length recs"
  shows "\<exists>new w'.
           update_knowledge_base p recs w = (Inr (), w') \<and>
           entries w' = entries w @ new \<and>
           length new = length recs \<and>
           (\<forall>i<length recs. map_of (recs ! i) ''documentId'' = None \<longrightarrow>
              new ! i =
                \<lparr>entry_id = doc_id (collection_count w + i),
                 entry_embedding = vs ! i,
                 entry_document = json_dumps (JObject (recs ! i)),
                 entry_metadata = [(''source'', ''None.json'')]\<rparr>)"
proof (cases "recs = []")
  case True
  then show ?thesis by (simp add: update_knowledge_base_def)
next
  case False
  let ?w0 = "get_or_create_collection w"
  let ?docs = "docs_to_ingest recs"
  let ?new = "batch_entries (length (entries w)) vs ?docs"
  let ?w' = "?w0\<lparr>embed_calls := Suc (embed_calls ?w0),
                  collection := Some (entries w @ ?new)\<rparr>"
  have ne: "?docs \<noteq> []" using False by (simp add: docs_to_ingest_def)
  have lvs: "length vs = length ?docs"
    using assms(4) by (simp add: length_docs_to_ingest)
  have c0: "collection ?w0 = Some (entries w)"
    by (rule get_or_create_collection_simps)
  have p0: "p (embed_calls ?w0) (map page_content ?docs) = Some vs"
    using assms(3) by (simp add: get_or_create_collection_simps)
  have "embed_and_add p ?docs ?w0 = (Inr (), ?w')"
    using c0 assms(2) p0 lvs by (rule embed_and_add_ok)
  then have r: "update_knowledge_base p recs w = (Inr (), ?w')"
    using False ne assms(1) by (simp add: update_knowledge_base_def Let_def)
  have e: "entries ?w' = entries w @ ?new"
    by (simp add: entries_def)
  have l: "length ?new = length recs"
    using length_batch_entries [OF lvs] by (simp add: length_docs_to_ingest)
  have n: "?new ! i =
           \<lparr>entry_id = doc_id (collection_count w + i),
            entry_embedding = vs ! i,
            entry_document = json_dumps (JObject (recs ! i)),
            entry_metadata = [(''source'', ''None.json'')]\<rparr>"
    if "i < length recs" and "map_of (recs ! i) ''documentId'' = None" for i
  proof -
    from that(1) have "i < length ?docs" by (simp add: length_docs_to_ingest)
    from nth_batch_entries [OF lvs this, of "length (entries w)"] that
    show ?thesis
      by (simp add: nth_docs_to_ingest collection_count_def)
  qed
  from r e l n show ?thesis by blast
qed

theorem update_without_document_id_witness:
  "api_key_set fresh_world \<and>
   wf_ids (entries fresh_world) \<and>
   map_of ([record_A, record_no_id] ! 1) ''documentId'' = None \<and>
   fst (update_knowledge_base mock_embedder [record_A, record_no_id] fresh_world) = Inr () \<and>
   entry_metadata
     (entries (snd (update_knowledge_base mock_embedder [record_A, record_no_id] fresh_world)) ! 1)
     = [(''source'', ''None.json'')]"
proof -
  let ?recs = "[record_A, record_no_id]"
  let ?vs = "map length (map page_content (docs_to_ingest ?recs))"
  have h3: "mock_embedder (embed_calls fresh_world) (map page_content (docs_to_ingest ?recs))
            = Some ?vs"
    by (simp add: mock_embedder_def)
  have h4: "length ?vs = length ?recs"
    by (simp add: docs_to_ingest_def)
  have m: "map_of (?recs ! 1) ''documentId'' = None"
    by (simp add: record_no_id_def)
  have e0: "entries fresh_world = []"
    by (simp add: entries_def fresh_world_def)
  from update_without_document_id
         [of fresh_world mock_embedder ?recs ?vs, OF api_key_set_fresh wf_ids_fresh_world h3 h4]
  obtain new w' where
    r: "update_knowledge_base mock_embedder ?recs fresh_world = (Inr (), w')"
    and e: "entries w' = entries fresh_world @ new"
    and n: "\<forall>i<length ?recs. map_of (?recs ! i) ''documentId'' = None \<longrightarrow>
              new ! i =
                \<lparr>entry_id = doc_id (collection_count fresh_world + i),
                 entry_embedding = ?vs ! i,
                 entry_document = json_dumps (JObject (?recs ! i)),
                 entry_metadata = [(''source'', ''None.json'')]\<rparr>"
    by blast
  from n m have "entry_metadata (new ! 1) = [(''source'', ''None.json'')]"
    by simp
  with e have "entry_metadata (entries w' ! 1) = [(''source'', ''None.json'')]"
    by (simp add: e0)
  with api_key_set_fresh wf_ids_fresh_world m show ?thesis
    by (simp only: r fst_conv snd_conv simp_thms)
qed

end
